theory Spec2Isabelle
  imports
    Main
    "HOL-Library.Multiset"
    "HOL-Library.Sublist"
    "HOL-Library.Char_ord"
    "HOL-Library.List_Lexorder"
begin

section \<open>microblog.pub, app.py: the request handlers as functions\<close>

text \<open>
  The handlers of \<^verbatim>\<open>src/app.py\<close> are embedded as HOL functions. A Python name
  that starts with an underscore loses it: \<^verbatim>\<open>_api_required\<close> is
  \<open>api_required_impl\<close> (the decorator keeps the name \<open>api_required\<close>),
  \<^verbatim>\<open>_user_api_arg\<close> is \<open>user_api_arg\<close>, \<^verbatim>\<open>_build_thread\<close> is
  \<open>build_thread\<close>, \<^verbatim>\<open>_flatten\<close> is \<open>flatten\<close>.

  Exceptions are values. \<open>HTTPException n\<close> is what Flask's \<^verbatim>\<open>abort(n)\<close> raises.
\<close>

datatype py_error =
    KeyError
  | TypeError
  | ValueError string
  | BadSignature
  | CSRFError
  | ActivityNotFoundError
  | HTTPException nat
  | LibraryError string

datatype 'a outcome = Return 'a | Raise py_error

subsection \<open>The request\<close>

text \<open>
  A Flask request, as far as the handlers read it: the method, the \<^verbatim>\<open>logged_in\<close> entry
  of the session, the headers, the query arguments, the form and, for a JSON request, the
  entries of its body. \<open>csrf_valid\<close> says whether \<^verbatim>\<open>csrf.protect()\<close> (flask_wtf, a
  library) accepts the request; it raises \<open>CSRFError\<close> otherwise.
\<close>

record request =
  http_method :: string
  session_logged_in :: bool
  csrf_valid :: bool
  headers :: "string \<rightharpoonup> string"
  args :: "string \<rightharpoonup> string"
  form :: "string \<rightharpoonup> string"
  is_json :: bool
  json :: "string \<rightharpoonup> string"

text \<open>Python's \<^verbatim>\<open>d.get(key, "")\<close> on a mapping of strings.\<close>

definition get_or_empty :: "(string \<rightharpoonup> string) \<Rightarrow> string \<Rightarrow> string" where
  "get_or_empty m k = (case m k of None \<Rightarrow> [] | Some v \<Rightarrow> v)"

text \<open>
  Python's \<^verbatim>\<open>s.replace(pat, "")\<close> for a non-empty pattern: every occurrence of
  \<open>pat\<close>, found left to right without overlap, is removed.
\<close>

function str_remove :: "string \<Rightarrow> string \<Rightarrow> string" where
  "str_remove pat [] = []"
| "str_remove pat (c # cs) =
     (if pat \<noteq> [] \<and> prefix pat (c # cs)
      then str_remove pat (drop (length pat) (c # cs))
      else c # str_remove pat cs)"
  by pat_completeness auto
termination
  by (relation "measure (\<lambda>(pat, s). length s)") auto

subsection \<open>Authorization of API calls: \<^verbatim>\<open>_api_required\<close> and \<^verbatim>\<open>api_required\<close>\<close>

text \<open>
  What \<^verbatim>\<open>_api_required\<close> does besides returning: a call of \<^verbatim>\<open>csrf.protect()\<close>, a
  call of \<^verbatim>\<open>JWT.loads(token)\<close>. \<^verbatim>\<open>JWT\<close> comes from \<^verbatim>\<open>config\<close>, which is not part of
  the sources: the signature check is the parameter \<open>jwt_ok\<close>, and \<^verbatim>\<open>JWT.loads\<close> raises
  \<open>BadSignature\<close> on a token it rejects.
\<close>

datatype auth_event = CsrfProtect | JwtLoads string

definition bearer_token :: "request \<Rightarrow> string" where
  "bearer_token req =
     (let token = str_remove ''Bearer '' (get_or_empty (headers req) ''Authorization'')
      in if token = [] then get_or_empty (form req) ''access_token'' else token)"

definition fixed_token :: string where
  "fixed_token = ''xyugavnomuravej''"

definition api_required_impl ::
    "(string \<Rightarrow> bool) \<Rightarrow> request \<Rightarrow> auth_event list \<times> unit outcome" where
  "api_required_impl jwt_ok req =
     (if session_logged_in req then
        (if http_method req \<notin> {''GET'', ''HEAD''} then
           (if csrf_valid req then ([CsrfProtect], Return ())
            else ([CsrfProtect], Raise CSRFError))
         else ([], Return ()))
      else
        (let token = bearer_token req in
         if token \<noteq> fixed_token then
           (if jwt_ok token then ([JwtLoads token], Return ())
            else ([JwtLoads token], Raise BadSignature))
         else ([], Return ())))"

text \<open>
  The decorator: \<open>BadSignature\<close> becomes \<^verbatim>\<open>abort(401)\<close>, any other exception passes,
  and otherwise the decorated function \<open>f\<close> runs on the request.
\<close>

definition api_required ::
    "(string \<Rightarrow> bool) \<Rightarrow> (request \<Rightarrow> 'r) \<Rightarrow> request \<Rightarrow> 'r outcome" where
  "api_required jwt_ok f req =
     (case snd (api_required_impl jwt_ok req) of
        Raise BadSignature \<Rightarrow> Raise (HTTPException 401)
      | Raise e \<Rightarrow> Raise e
      | Return u \<Rightarrow> Return (f req))"


subsection \<open>Concrete requests\<close>

definition jwt_accept_all :: "string \<Rightarrow> bool" where
  "jwt_accept_all t = True"

definition jwt_reject_all :: "string \<Rightarrow> bool" where
  "jwt_reject_all t = False"

definition noop_handler :: "request \<Rightarrow> unit" where
  "noop_handler req = ()"

definition req_anonymous :: request where
  "req_anonymous =
     \<lparr> http_method = ''POST'', session_logged_in = False, csrf_valid = False,
       headers = Map.empty, args = Map.empty, form = Map.empty,
       is_json = False, json = Map.empty \<rparr>"

definition req_fixed_token :: request where
  "req_fixed_token =
     req_anonymous \<lparr> headers := [''Authorization'' \<mapsto> ''Bearer xyugavnomuravej''] \<rparr>"

definition req_fixed_token_session :: request where
  "req_fixed_token_session = req_fixed_token \<lparr> session_logged_in := True \<rparr>"

subsection \<open>Responses\<close>

text \<open>
  A Flask response: status, headers and body. A JSON body is kept as the list of its
  entries.
\<close>

datatype body =
    EmptyBody
  | JsonBody "(string \<times> string) list"

record response =
  status :: nat
  resp_headers :: "(string \<times> string) list"
  resp_body :: body

subsection \<open>Inbound delivery: \<^verbatim>\<open>inbox\<close>, POST\<close>

text \<open>
  The delivered JSON document, as far as the handler itself reads it: a JSON object with
  or without an \<^verbatim>\<open>id\<close> entry, or another JSON value (a list, a string, a number,
  \<^verbatim>\<open>null\<close>); the rest of the document is kept as text. \<open>data_id\<close> is the lookup
  \<^verbatim>\<open>data["id"]\<close>: it raises \<open>KeyError\<close> on an object with no such entry and
  \<open>TypeError\<close> on a value that is no object.

  The collaborators are library code (\<^verbatim>\<open>little_boxes\<close>) and are parameters:
  \<open>verify_request\<close> is the outcome of \<^verbatim>\<open>verify_request(method, path, headers, data)\<close>
  on this request (true, false, or an exception), \<open>fetch_iri\<close> is
  \<^verbatim>\<open>get_backend().fetch_iri\<close> (\<open>None\<close> when it raises), \<open>parse_activity\<close> is
  \<^verbatim>\<open>ap.parse_activity\<close>, and \<open>inbox_post\<close> is \<^verbatim>\<open>INBOX.post\<close>, which changes the store
  \<open>'s\<close> and may raise.
\<close>

datatype json_doc = JsonObject "string option" string | JsonOther string

fun data_id :: "json_doc \<Rightarrow> py_error + string" where
  "data_id (JsonObject (Some i) t) = Inr i"
| "data_id (JsonObject None t) = Inl KeyError"
| "data_id (JsonOther t) = Inl TypeError"

fun json_text :: "json_doc \<Rightarrow> string" where
  "json_text (JsonObject i t) = t"
| "json_text (JsonOther t) = t"

datatype verify_outcome = SigValid | SigInvalid | SigRaised

record ('a, 's) inbox_env =
  verify_request :: verify_outcome
  fetch_iri :: "string \<Rightarrow> json_doc option"
  parse_activity :: "json_doc \<Rightarrow> py_error + 'a"
  inbox_post :: "'a \<Rightarrow> 's \<Rightarrow> py_error option \<times> 's"

definition response_201 :: response where
  "response_201 = \<lparr> status = 201, resp_headers = [], resp_body = EmptyBody \<rparr>"

definition response_422 :: response where
  "response_422 =
     \<lparr> status = 422,
       resp_headers = [(''Content-Type'', ''application/json'')],
       resp_body = JsonBody
         [(''error'',
           ''failed to verify request (using HTTP signatures or fetching the IRI)'')] \<rparr>"

text \<open>
  The tail of the handler, from \<^verbatim>\<open>activity = ap.parse_activity(data)\<close> on, run on the
  document \<open>data\<close> that the first part settled on.
\<close>

definition inbox_process ::
    "('a, 's) inbox_env \<Rightarrow> json_doc \<Rightarrow> 's \<Rightarrow> response outcome \<times> 's" where
  "inbox_process env data st =
     (case parse_activity env data of
        Inl e \<Rightarrow> (Raise e, st)
      | Inr parsed \<Rightarrow>
          (case inbox_post env parsed st of
             (Some e, st') \<Rightarrow> (Raise e, st')
           | (None, st') \<Rightarrow> (Return response_201, st')))"

text \<open>
  The POST branch. \<open>posted\<close> is \<^verbatim>\<open>request.get_json(force=True)\<close>: \<open>None\<close> when the
  body is not JSON, and Flask answers 400. When the verification does not succeed, the
  \<^verbatim>\<open>try\<close> block evaluates \<^verbatim>\<open>data["id"]\<close> and calls \<^verbatim>\<open>fetch_iri\<close>; its handler
  formats \<^verbatim>\<open>data["id"]\<close> into the log line before it returns 422, so a document on
  which that lookup raises makes it raise again, from inside the handler.
\<close>

definition inbox_POST ::
    "('a, 's) inbox_env \<Rightarrow> json_doc option \<Rightarrow> 's \<Rightarrow> response outcome \<times> 's" where
  "inbox_POST env posted st =
     (case posted of
        None \<Rightarrow> (Raise (HTTPException 400), st)
      | Some data \<Rightarrow>
          if verify_request env = SigValid then inbox_process env data st
          else
            (case data_id data of
               Inl e \<Rightarrow> (Raise e, st)
             | Inr iri \<Rightarrow>
                 (case fetch_iri env iri of
                    None \<Rightarrow> (Return response_422, st)
                  | Some fetched \<Rightarrow> inbox_process env fetched st)))"

subsection \<open>Concrete deliveries\<close>

definition delivered_doc :: json_doc where
  "delivered_doc = JsonObject (Some ''https://remote.example/a/1'') ''tampered''"

definition fetched_doc :: json_doc where
  "fetched_doc = JsonObject (Some ''https://remote.example/a/1'') ''original''"

definition doc_without_id :: json_doc where
  "doc_without_id = JsonObject None ''no id''"

definition doc_list :: json_doc where
  "doc_list = JsonOther ''a list''"

definition fetch_known :: "string \<Rightarrow> json_doc option" where
  "fetch_known iri = (if iri = ''https://remote.example/a/1'' then Some fetched_doc else None)"

definition fetch_nothing :: "string \<Rightarrow> json_doc option" where
  "fetch_nothing iri = None"

definition parse_text :: "json_doc \<Rightarrow> py_error + string" where
  "parse_text d = Inr (json_text d)"

definition store_append :: "string \<Rightarrow> string list \<Rightarrow> py_error option \<times> string list" where
  "store_append a st = (None, st @ [a])"

definition env_unsigned :: "(string \<Rightarrow> json_doc option) \<Rightarrow> (string, string list) inbox_env" where
  "env_unsigned fetch =
     \<lparr> verify_request = SigInvalid, fetch_iri = fetch,
       parse_activity = parse_text, inbox_post = store_append \<rparr>"

subsection \<open>The store\<close>

text \<open>
  A stored record of the MongoDB collections \<^verbatim>\<open>DB.inbox\<close>, \<^verbatim>\<open>DB.outbox\<close> and
  \<^verbatim>\<open>DB.threads\<close>, as far as \<^verbatim>\<open>app.py\<close> reads it: \<open>doc_id\<close> is \<^verbatim>\<open>_id\<close> (the
  ordering key), \<open>dtype\<close> is the top-level \<^verbatim>\<open>type\<close>, and the three \<open>meta_\<close> fields
  are the entries of \<^verbatim>\<open>meta\<close>, \<open>None\<close> when the entry is absent. The object of an
  activity is either a bare IRI (as in an Announce or a Like) or an embedded object with
  its \<^verbatim>\<open>id\<close>, \<^verbatim>\<open>type\<close>, \<^verbatim>\<open>published\<close> and, when it is a reply, \<^verbatim>\<open>inReplyTo\<close>.
  \<open>published\<close> is a string, compared as Python compares strings.
\<close>

record ap_note =
  obj_id :: string
  obj_type :: string
  in_reply_to :: "string option"
  published :: string

datatype ap_object = ObjIri string | ObjEmbedded ap_note

record activity =
  act_id :: string
  act_object :: ap_object

record doc =
  doc_id :: nat
  remote_id :: string
  dtype :: string
  activity :: activity
  meta_deleted :: "bool option"
  meta_undo :: "bool option"
  meta_thread_root_parent :: "string option"

text \<open>
  A record of \<^verbatim>\<open>DB.following\<close>: it is keyed by the IRI of the remote actor, and every
  reader of the collection but one reads \<^verbatim>\<open>remote_actor\<close> only. \<^verbatim>\<open>api_follow\<close> reads
  \<^verbatim>\<open>existing["activity"]["id"]\<close> as well; no code of \<^verbatim>\<open>app.py\<close> writes such an
  entry, so \<open>follow_activity\<close> is \<open>None\<close> on a record that has none, and the lookup
  raises \<open>KeyError\<close> there.
\<close>

record following_rec =
  remote_actor :: string
  follow_activity :: "activity option"

record db =
  inbox :: "doc list"
  outbox :: "doc list"
  threads :: "doc list"
  following :: "following_rec list"

text \<open>MongoDB's \<^verbatim>\<open>find_one\<close>: the first record of the collection that matches.\<close>

definition find_one :: "('a \<Rightarrow> bool) \<Rightarrow> 'a list \<Rightarrow> 'a option" where
  "find_one q col = List.find q col"

text \<open>
  \<^verbatim>\<open>find(q, limit=n).sort("_id", -1)\<close>: MongoDB sorts before it applies the limit.
\<close>

definition find_sort_desc :: "(doc \<Rightarrow> bool) \<Rightarrow> nat \<Rightarrow> doc list \<Rightarrow> doc list" where
  "find_sort_desc q n col = take n (rev (sort_key doc_id (filter q col)))"

text \<open>
  Query clauses on the object of the activity. \<^verbatim>\<open>{"activity.object.type": t}\<close> needs an
  embedded object of that type; \<^verbatim>\<open>{"activity.object.inReplyTo": None}\<close> matches when
  the entry is null or absent, which it is on a bare IRI too.
\<close>

definition object_type_is :: "string \<Rightarrow> doc \<Rightarrow> bool" where
  "object_type_is t d =
     (case act_object (activity d) of ObjIri i \<Rightarrow> False | ObjEmbedded n \<Rightarrow> obj_type n = t)"

definition in_reply_to_null :: "doc \<Rightarrow> bool" where
  "in_reply_to_null d =
     (case act_object (activity d) of ObjIri i \<Rightarrow> True | ObjEmbedded n \<Rightarrow> in_reply_to n = None)"

subsection \<open>The HTML views of the outbox: \<^verbatim>\<open>index\<close> and \<^verbatim>\<open>with_replies\<close>\<close>

text \<open>
  An ObjectId is modelled by a natural number, ordered as MongoDB orders the ids; the
  argument \<open>c\<close> of a view is the \<^verbatim>\<open>cursor\<close> argument of the request read as an ObjectId,
  \<open>None\<close> when the request has none.

  \<open>index_q c\<close> is the dictionary \<^verbatim>\<open>q\<close> of \<^verbatim>\<open>index\<close> after the cursor, when the request
  has one, was added to it as \<^verbatim>\<open>q["_id"] = {"$lt": ObjectId(c)}\<close>; \<open>index_query c\<close> is
  the query handed to \<^verbatim>\<open>DB.outbox.find\<close>: \<^verbatim>\<open>{"$or": [q, {"type": "Announce",
  "meta.undo": False}]}\<close>. A clause \<^verbatim>\<open>{"meta.deleted": False}\<close> matches a record whose
  entry is present and false.
\<close>

definition index_q :: "nat option \<Rightarrow> doc \<Rightarrow> bool" where
  "index_q c d \<longleftrightarrow>
     dtype d = ''Create'' \<and> object_type_is ''Note'' d \<and> in_reply_to_null d
     \<and> meta_deleted d = Some False
     \<and> (case c of None \<Rightarrow> True | Some k \<Rightarrow> doc_id d < k)"

definition index_query :: "nat option \<Rightarrow> doc \<Rightarrow> bool" where
  "index_query c d \<longleftrightarrow> index_q c d \<or> (dtype d = ''Announce'' \<and> meta_undo d = Some False)"

text \<open>
  The page size is the constant \<^verbatim>\<open>limit = 50\<close> of the two handlers; \<open>page_of\<close> is their
  common body with the page size as an argument: the list \<^verbatim>\<open>outbox_data\<close> handed to the
  template and the \<^verbatim>\<open>cursor\<close> handed with it. The branch of \<^verbatim>\<open>index\<close> for API requests
  (it answers with the actor) and the \<^verbatim>\<open>ref\<close> entries added to Announce records for
  display are left out: neither changes which records are listed.
\<close>

definition page_of :: "nat \<Rightarrow> (doc \<Rightarrow> bool) \<Rightarrow> doc list \<Rightarrow> doc list \<times> nat option" where
  "page_of limit query col =
     (let outbox_data = find_sort_desc query limit col;
          cursor = (if outbox_data \<noteq> [] \<and> length outbox_data = limit
                    then Some (doc_id (last outbox_data)) else None)
      in (outbox_data, cursor))"

definition index :: "nat option \<Rightarrow> db \<Rightarrow> doc list \<times> nat option" where
  "index c store = page_of 50 (index_query c) (outbox store)"

definition with_replies_q :: "nat option \<Rightarrow> doc \<Rightarrow> bool" where
  "with_replies_q c d \<longleftrightarrow>
     dtype d = ''Create'' \<and> object_type_is ''Note'' d \<and> meta_deleted d = Some False
     \<and> (case c of None \<Rightarrow> True | Some k \<Rightarrow> doc_id d < k)"

definition with_replies_query :: "nat option \<Rightarrow> doc \<Rightarrow> bool" where
  "with_replies_query c d \<longleftrightarrow>
     with_replies_q c d \<or> (dtype d = ''Announce'' \<and> meta_undo d = Some False)"

definition with_replies :: "nat option \<Rightarrow> db \<Rightarrow> doc list \<times> nat option" where
  "with_replies c store = page_of 50 (with_replies_query c) (outbox store)"

text \<open>
  A reader of the view who starts with no cursor and passes each returned cursor to the
  next request, for at most \<open>n\<close> requests: the pages concatenated, or \<open>None\<close> when the
  \<open>n\<close>-th page still returns a cursor.
\<close>

fun follow_cursors ::
    "(nat option \<Rightarrow> db \<Rightarrow> doc list \<times> nat option) \<Rightarrow> nat \<Rightarrow> nat option \<Rightarrow> db \<Rightarrow> doc list option" where
  "follow_cursors view 0 c store = None"
| "follow_cursors view (Suc n) c store =
     (case view c store of
        (items, None) \<Rightarrow> Some items
      | (items, Some k) \<Rightarrow> map_option ((@) items) (follow_cursors view n (Some k) store))"

subsection \<open>The protocol view of the outbox: \<^verbatim>\<open>outbox\<close>, GET\<close>


subsection \<open>Concrete stores\<close>

definition mk_note :: "nat \<Rightarrow> doc" where
  "mk_note i =
     \<lparr> doc_id = i, remote_id = ''https://me.example/outbox/note'', dtype = ''Create'',
       activity = \<lparr> act_id = ''https://me.example/outbox/note'',
                    act_object = ObjEmbedded
                      \<lparr> obj_id = ''https://me.example/outbox/note/activity'', obj_type = ''Note'',
                        in_reply_to = None, published = ''2018-06-01T00:00:00Z'' \<rparr> \<rparr>,
       meta_deleted = Some False, meta_undo = Some False, meta_thread_root_parent = None \<rparr>"

definition mk_announce :: "nat \<Rightarrow> doc" where
  "mk_announce i =
     \<lparr> doc_id = i, remote_id = ''https://me.example/outbox/boost'', dtype = ''Announce'',
       activity = \<lparr> act_id = ''https://me.example/outbox/boost'',
                    act_object = ObjIri ''https://remote.example/note/1'' \<rparr>,
       meta_deleted = Some False, meta_undo = Some False, meta_thread_root_parent = None \<rparr>"


definition store_of_outbox :: "doc list \<Rightarrow> db" where
  "store_of_outbox ds = \<lparr> inbox = [], outbox = ds, threads = [], following = [] \<rparr>"

definition store_one_boost :: db where
  "store_one_boost = store_of_outbox [mk_announce 5]"

definition store_fifty_notes_one_boost :: db where
  "store_fifty_notes_one_boost = store_of_outbox (map mk_note [1..<51] @ [mk_announce 51])"

subsection \<open>The user API: arguments and responses\<close>

text \<open>
  Python's truth value of an optional string: \<^verbatim>\<open>None\<close> and the empty string are false.
\<close>

definition truthy :: "string option \<Rightarrow> bool" where
  "truthy v = (case v of None \<Rightarrow> False | Some s \<Rightarrow> s \<noteq> [])"

text \<open>
  \<^verbatim>\<open>_user_api_arg(key)\<close> looks the key up in the JSON body of a JSON request, and
  otherwise in the query arguments and then the form. \<open>user_api_arg\<close> is the call with no
  \<^verbatim>\<open>default\<close>, which raises \<open>ValueError\<close> on a missing or empty value;
  \<open>user_api_arg_default\<close> is the call with \<^verbatim>\<open>default=d\<close>.
\<close>

definition user_api_lookup :: "request \<Rightarrow> string \<Rightarrow> string option" where
  "user_api_lookup req key =
     (if is_json req then json req key
      else if truthy (args req key) then args req key else form req key)"

definition user_api_arg :: "request \<Rightarrow> string \<Rightarrow> string outcome" where
  "user_api_arg req key =
     (case user_api_lookup req key of
        None \<Rightarrow> Raise (ValueError (''missing '' @ key))
      | Some oid \<Rightarrow> if oid = [] then Raise (ValueError (''missing '' @ key)) else Return oid)"

definition user_api_arg_default :: "request \<Rightarrow> string \<Rightarrow> string option \<Rightarrow> string option" where
  "user_api_arg_default req key d =
     (let oid = user_api_lookup req key in if \<not> truthy oid then d else oid)"

text \<open>
  \<^verbatim>\<open>_user_api_response(activity=i)\<close>: a redirect when the request names one, and
  otherwise the JSON object \<^verbatim>\<open>{"activity": i}\<close> with status 201.
\<close>

definition user_api_response :: "request \<Rightarrow> string \<Rightarrow> response" where
  "user_api_response req activity_id =
     (case user_api_arg_default req ''redirect'' None of
        Some r \<Rightarrow>
          if r \<noteq> [] then \<lparr> status = 302, resp_headers = [(''Location'', r)], resp_body = EmptyBody \<rparr>
          else \<lparr> status = 201, resp_headers = [], resp_body = JsonBody [(''activity'', activity_id)] \<rparr>
      | None \<Rightarrow>
          \<lparr> status = 201, resp_headers = [], resp_body = JsonBody [(''activity'', activity_id)] \<rparr>)"

subsection \<open>The user API: \<^verbatim>\<open>api_undo\<close>, \<^verbatim>\<open>api_block\<close>, \<^verbatim>\<open>api_follow\<close>\<close>

text \<open>
  The activities the three handlers build for the local actor: \<^verbatim>\<open>obj.build_undo()\<close>,
  \<^verbatim>\<open>ap.Follow(actor=MY_PERSON.id, object=actor)\<close> and
  \<^verbatim>\<open>ap.Block(actor=MY_PERSON.id, object=actor)\<close>.

  \<^verbatim>\<open>back.activity_url\<close> and \<^verbatim>\<open>OUTBOX.post\<close> belong to \<^verbatim>\<open>activitypub.py\<close> and to
  \<^verbatim>\<open>little_boxes\<close>, which are not part of the sources, and are parameters.
  \<open>outbox_post\<close> takes the store to the store after the post and gives the \<^verbatim>\<open>id\<close> the
  posted activity got, or the exception raised.
\<close>

datatype new_activity = Undo activity | Follow string | Block string

record api_env =
  activity_url :: "string \<Rightarrow> string"
  outbox_post :: "new_activity \<Rightarrow> db \<Rightarrow> (py_error + string) \<times> db"

text \<open>The end of each handler: the answer after \<^verbatim>\<open>OUTBOX.post(a)\<close>, built from \<^verbatim>\<open>a.id\<close>.\<close>

definition api_posted ::
    "request \<Rightarrow> (py_error + string) \<times> db \<Rightarrow> response outcome \<times> db" where
  "api_posted req posted =
     (case posted of
        (Inl e, store') \<Rightarrow> (Raise e, store')
      | (Inr new_id, store') \<Rightarrow> (Return (user_api_response req new_id), store'))"

definition api_undo :: "api_env \<Rightarrow> request \<Rightarrow> db \<Rightarrow> response outcome \<times> db" where
  "api_undo env req store =
     (case user_api_arg req ''id'' of
        Raise e \<Rightarrow> (Raise e, store)
      | Return oid \<Rightarrow>
          (case find_one (\<lambda>d. remote_id d = activity_url env oid \<or> remote_id d = oid)
                  (outbox store) of
             None \<Rightarrow> (Raise ActivityNotFoundError, store)
           | Some doc \<Rightarrow> api_posted req (outbox_post env (Undo (activity doc)) store)))"

definition api_block :: "api_env \<Rightarrow> request \<Rightarrow> db \<Rightarrow> response outcome \<times> db" where
  "api_block env req store =
     (case user_api_arg req ''actor'' of
        Raise e \<Rightarrow> (Raise e, store)
      | Return actor \<Rightarrow>
          (case find_one (\<lambda>d. dtype d = ''Block'' \<and> act_object (activity d) = ObjIri actor
                               \<and> meta_undo d = Some False) (outbox store) of
             Some existing \<Rightarrow> (Return (user_api_response req (act_id (activity existing))), store)
           | None \<Rightarrow> api_posted req (outbox_post env (Block actor) store)))"

definition api_follow :: "api_env \<Rightarrow> request \<Rightarrow> db \<Rightarrow> response outcome \<times> db" where
  "api_follow env req store =
     (case user_api_arg req ''actor'' of
        Raise e \<Rightarrow> (Raise e, store)
      | Return actor \<Rightarrow>
          (case find_one (\<lambda>f. remote_actor f = actor) (following store) of
             Some existing \<Rightarrow>
               (case follow_activity existing of
                  None \<Rightarrow> (Raise KeyError, store)
                | Some a \<Rightarrow> (Return (user_api_response req (act_id a)), store))
           | None \<Rightarrow> api_posted req (outbox_post env (Follow actor) store)))"

subsection \<open>Concrete API requests\<close>

definition actor_x :: string where
  "actor_x = ''https://remote.example/users/x''"

definition follow_activity_x :: activity where
  "follow_activity_x = \<lparr> act_id = ''https://me.example/outbox/f1'', act_object = ObjIri actor_x \<rparr>"

definition follow_undone :: doc where
  "follow_undone =
     \<lparr> doc_id = 1, remote_id = ''https://me.example/outbox/f1'', dtype = ''Follow'',
       activity = follow_activity_x,
       meta_deleted = Some False, meta_undo = Some True, meta_thread_root_parent = None \<rparr>"

definition block_x :: doc where
  "block_x =
     \<lparr> doc_id = 2, remote_id = ''https://me.example/outbox/b1'', dtype = ''Block'',
       activity = \<lparr> act_id = ''https://me.example/outbox/b1'', act_object = ObjIri actor_x \<rparr>,
       meta_deleted = Some False, meta_undo = Some False, meta_thread_root_parent = None \<rparr>"

definition following_x :: following_rec where
  "following_x = \<lparr> remote_actor = actor_x, follow_activity = Some follow_activity_x \<rparr>"

definition store_undone :: db where
  "store_undone = store_of_outbox [follow_undone]"

definition following_bare :: following_rec where
  "following_bare = \<lparr> remote_actor = actor_x, follow_activity = None \<rparr>"

definition store_following_bare :: db where
  "store_following_bare =
     \<lparr> inbox = [], outbox = [], threads = [], following = [following_bare] \<rparr>"

definition store_following_x :: db where
  "store_following_x =
     \<lparr> inbox = [], outbox = [block_x], threads = [], following = [following_x] \<rparr>"

definition req_undo :: request where
  "req_undo = req_fixed_token \<lparr> form := [''id'' \<mapsto> ''https://me.example/outbox/f1''] \<rparr>"

definition req_actor_x :: request where
  "req_actor_x = req_fixed_token \<lparr> form := [''actor'' \<mapsto> ''https://remote.example/users/x''] \<rparr>"

definition local_url :: "string \<Rightarrow> string" where
  "local_url item = ''https://me.example/outbox/'' @ item"

definition post_refused :: "new_activity \<Rightarrow> db \<Rightarrow> (py_error + string) \<times> db" where
  "post_refused a store = (Inl (LibraryError ''post''), store)"

definition env_post_refused :: api_env where
  "env_post_refused = \<lparr> activity_url = local_url, outbox_post = post_refused \<rparr>"

subsection \<open>The thread of a note: \<^verbatim>\<open>_build_thread\<close>\<close>

text \<open>
  \<^verbatim>\<open>_build_thread\<close> reads \<^verbatim>\<open>d["activity"]["object"]\<close> of every record it collects as a
  dictionary; on a record whose object is a bare IRI the first such read raises
  \<open>TypeError\<close>. An \<open>entry\<close> is a record together with its embedded object.
\<close>

type_synonym entry = "doc \<times> ap_note"

definition entry_of :: "doc \<Rightarrow> entry option" where
  "entry_of d = (case act_object (activity d) of ObjIri i \<Rightarrow> None | ObjEmbedded n \<Rightarrow> Some (d, n))"

definition entry_id :: "entry \<Rightarrow> string" where
  "entry_id e = obj_id (snd e)"

definition entry_reply_to :: "entry \<Rightarrow> string option" where
  "entry_reply_to e = in_reply_to (snd e)"

definition entry_published :: "entry \<Rightarrow> string" where
  "entry_published e = published (snd e)"

text \<open>
  The query of \<^verbatim>\<open>_build_thread\<close>: the Create records whose \<^verbatim>\<open>meta.thread_root_parent\<close>
  is the root and, when the requested note is a reply (\<open>parent\<close> is its non-empty
  \<^verbatim>\<open>inReplyTo\<close>), the records whose object is the parent.
\<close>

definition thread_query :: "string \<Rightarrow> string option \<Rightarrow> doc \<Rightarrow> bool" where
  "thread_query root_id parent d \<longleftrightarrow>
     (meta_thread_root_parent d = Some root_id \<and> dtype d = ''Create'')
     \<or> (case parent of
          None \<Rightarrow> False
        | Some p \<Rightarrow>
            (case act_object (activity d) of ObjIri i \<Rightarrow> False | ObjEmbedded n \<Rightarrow> obj_id n = p))"

text \<open>
  The first part of the function: the root id (\<^verbatim>\<open>meta.thread_root_parent\<close> of the
  requested record when it has one, the id of its object otherwise) and the list
  \<^verbatim>\<open>replies\<close>, the requested record first, then the matches of the inbox, the outbox and
  the thread cache, sorted by \<^verbatim>\<open>published\<close> with Python's stable \<^verbatim>\<open>sorted\<close>.
\<close>

definition thread_replies :: "db \<Rightarrow> doc \<Rightarrow> py_error + string \<times> entry list" where
  "thread_replies store data =
     (case entry_of data of
        None \<Rightarrow> Inl TypeError
      | Some requested \<Rightarrow>
          (let root_id = (case meta_thread_root_parent data of
                            Some r \<Rightarrow> r | None \<Rightarrow> entry_id requested);
               parent = (if truthy (entry_reply_to requested) then entry_reply_to requested
                         else None);
               query = thread_query root_id parent;
               replies = data # filter query (inbox store) @ filter query (outbox store)
                           @ filter query (threads store)
           in case those (map entry_of replies) of
                None \<Rightarrow> Inl TypeError
              | Some entries \<Rightarrow> Inr (root_id, sort_key entry_published entries)))"

text \<open>
  The index \<^verbatim>\<open>idx\<close> maps an object id to its record and the list \<^verbatim>\<open>_nodes\<close> of its
  children. The first loop fills it and keeps, in \<^verbatim>\<open>replies2\<close>, the first record of
  each id.
\<close>

type_synonym thread_index = "string \<rightharpoonup> entry \<times> entry list"

fun index_replies ::
    "entry list \<Rightarrow> thread_index \<Rightarrow> entry list \<Rightarrow> thread_index \<times> entry list" where
  "index_replies [] idx replies2 = (idx, replies2)"
| "index_replies (rep # reps) idx replies2 =
     (if idx (entry_id rep) \<noteq> None then index_replies reps idx replies2
      else index_replies reps (idx(entry_id rep \<mapsto> (rep, []))) (replies2 @ [rep]))"

text \<open>
  The second loop appends each record other than the root to the children of the record
  it replies to: \<^verbatim>\<open>idx[reply_of]["_nodes"].append(rep)\<close>. A record with no
  \<^verbatim>\<open>inReplyTo\<close>, or with one that is no key of the index, raises \<open>KeyError\<close>.
\<close>

fun build_tree :: "string \<Rightarrow> entry list \<Rightarrow> thread_index \<Rightarrow> py_error + thread_index" where
  "build_tree root_id [] idx = Inr idx"
| "build_tree root_id (rep # reps) idx =
     (if entry_id rep = root_id then build_tree root_id reps idx
      else
        (case entry_reply_to rep of
           None \<Rightarrow> Inl KeyError
         | Some reply_of \<Rightarrow>
             (case idx reply_of of
                None \<Rightarrow> Inl KeyError
              | Some (node, nodes) \<Rightarrow>
                  build_tree root_id reps (idx(reply_of \<mapsto> (node, nodes @ [rep]))))))"

text \<open>
  \<^verbatim>\<open>_flatten\<close> appends the node with its level to the thread and then flattens its
  children, sorted by \<^verbatim>\<open>published\<close>, one level deeper. The recursion is not structural:
  \<open>flatten\<close> takes the depth it may still descend as fuel and gives \<open>None\<close> when that
  runs out. \<open>run_all\<close> is the loop over the children: it stops at the first child that
  raises or does not finish. (The recursion limit of the interpreter is not modelled.)
\<close>

fun run_all :: "(py_error + 'a list) option list \<Rightarrow> (py_error + 'a list) option" where
  "run_all [] = Some (Inr [])"
| "run_all (r # rs) =
     (case r of
        None \<Rightarrow> None
      | Some (Inl e) \<Rightarrow> Some (Inl e)
      | Some (Inr xs) \<Rightarrow>
          (case run_all rs of
             None \<Rightarrow> None
           | Some (Inl e) \<Rightarrow> Some (Inl e)
           | Some (Inr ys) \<Rightarrow> Some (Inr (xs @ ys))))"

fun flatten ::
    "nat \<Rightarrow> thread_index \<Rightarrow> entry \<Rightarrow> nat \<Rightarrow> (py_error + (entry \<times> nat) list) option" where
  "flatten 0 idx node level = None"
| "flatten (Suc fuel) idx node level =
     (case idx (entry_id node) of
        None \<Rightarrow> Some (Inl KeyError)
      | Some (indexed, nodes) \<Rightarrow>
          (case run_all (map (\<lambda>snode. flatten fuel idx snode (level + 1))
                          (sort_key entry_published nodes)) of
             None \<Rightarrow> None
           | Some (Inl e) \<Rightarrow> Some (Inl e)
           | Some (Inr below) \<Rightarrow> Some (Inr ((node, level) # below))))"

text \<open>
  The function: the thread as the list of its records with their \<^verbatim>\<open>_level\<close>, an
  exception, or \<open>None\<close> when the fuel does not suffice. (The mark \<^verbatim>\<open>_requested\<close> that the
  function sets on the requested record is left out.)
\<close>

definition build_thread ::
    "nat \<Rightarrow> db \<Rightarrow> doc \<Rightarrow> (py_error + (entry \<times> nat) list) option" where
  "build_thread fuel store data =
     (case thread_replies store data of
        Inl e \<Rightarrow> Some (Inl e)
      | Inr (root_id, replies) \<Rightarrow>
          (case index_replies replies Map.empty [] of
             (idx, replies2) \<Rightarrow>
               (case build_tree root_id replies2 idx of
                  Inl e \<Rightarrow> Some (Inl e)
                | Inr tree \<Rightarrow>
                    (case tree root_id of
                       None \<Rightarrow> Some (Inl KeyError)
                     | Some (root, nodes) \<Rightarrow> flatten fuel tree root 0))))"

text \<open>
  The records \<^verbatim>\<open>_build_thread\<close> works on, for the statements below: the root id and the
  list \<^verbatim>\<open>replies2\<close>.
\<close>

definition thread_records :: "db \<Rightarrow> doc \<Rightarrow> py_error + string \<times> entry list" where
  "thread_records store data =
     (case thread_replies store data of
        Inl e \<Rightarrow> Inl e
      | Inr (root_id, replies) \<Rightarrow> Inr (root_id, snd (index_replies replies Map.empty [])))"

subsection \<open>The views of one record: \<^verbatim>\<open>outbox_detail\<close> and \<^verbatim>\<open>note_by_id\<close>\<close>

text \<open>
  What a view answers with: the tombstone of an object
  (\<^verbatim>\<open>obj.get_object().get_tombstone()\<close>), the activity of a record
  (\<^verbatim>\<open>activity_from_doc(doc)\<close>), or the page \<^verbatim>\<open>note.html\<close> of a note with its thread. The
  lists of likes and shares on that page are left out.
\<close>

datatype view =
    Tombstone ap_object
  | ActivityJson doc
  | NotePage doc "(entry \<times> nat) list"



subsection \<open>A conversation\<close>

definition mk_reply :: "nat \<Rightarrow> string \<Rightarrow> string option \<Rightarrow> string \<Rightarrow> string option \<Rightarrow> doc" where
  "mk_reply i ident reply_to pub root =
     \<lparr> doc_id = i, remote_id = ''https://me.example/outbox/'' @ ident, dtype = ''Create'',
       activity = \<lparr> act_id = ''https://me.example/outbox/'' @ ident,
                    act_object = ObjEmbedded
                      \<lparr> obj_id = ident, obj_type = ''Note'', in_reply_to = reply_to,
                        published = pub \<rparr> \<rparr>,
       meta_deleted = Some False, meta_undo = Some False, meta_thread_root_parent = root \<rparr>"

definition note_A :: doc where
  "note_A = mk_reply 1 ''A'' None ''2018-06-01T10:00:00Z'' None"

definition note_B :: doc where
  "note_B = mk_reply 2 ''B'' (Some ''A'') ''2018-06-01T11:00:00Z'' (Some ''A'')"

definition note_C :: doc where
  "note_C = mk_reply 3 ''C'' (Some ''B'') ''2018-06-01T12:00:00Z'' (Some ''A'')"

definition store_ABC :: db where
  "store_ABC = store_of_outbox [note_A, note_B, note_C]"

subsection \<open>Concrete records for the views and the thread\<close>



definition note_R :: doc where
  "note_R = mk_reply 1 ''R'' None ''2018-06-01T10:00:00Z'' None"

definition note_X :: doc where
  "note_X = mk_reply 2 ''X'' (Some ''X'') ''2018-06-01T11:00:00Z'' (Some ''R'')"

definition store_self_reply :: db where
  "store_self_reply = \<lparr> inbox = [note_X], outbox = [note_R], threads = [], following = [] \<rparr>"

definition note_Y :: doc where
  "note_Y = mk_reply 2 ''Y'' (Some ''Z'') ''2018-06-01T11:00:00Z'' (Some ''R'')"

definition store_lost_parent :: db where
  "store_lost_parent = \<lparr> inbox = [note_Y], outbox = [note_R], threads = [], following = [] \<rparr>"

subsection \<open>The thread as a tree\<close>

text \<open>
  What the thread of a note is meant to be. \<open>keep_first\<close> removes the duplicates by
  object id and keeps the first record of each id. A \<open>thread_tree\<close> holds a record and
  the trees of its direct replies; \<open>preorder\<close> lists the records of a tree parent first,
  each with its nesting level, a reply one level below the record it replies to.
\<close>

fun keep_first :: "entry list \<Rightarrow> entry list" where
  "keep_first [] = []"
| "keep_first (e # es) = e # keep_first (filter (\<lambda>x. entry_id x \<noteq> entry_id e) es)"

datatype thread_tree = Thread (tree_entry: entry) (tree_replies: "thread_tree list")

fun preorder :: "nat \<Rightarrow> thread_tree \<Rightarrow> (entry \<times> nat) list" where
  "preorder level (Thread e cs) = (e, level) # concat (map (preorder (Suc level)) cs)"

fun members :: "thread_tree \<Rightarrow> entry list" where
  "members (Thread e cs) = e # concat (map members cs)"

fun depth :: "thread_tree \<Rightarrow> nat" where
  "depth (Thread e cs) = Suc (foldr max (map depth cs) 0)"

fun subtrees :: "thread_tree \<Rightarrow> thread_tree set" where
  "subtrees (Thread e cs) = insert (Thread e cs) (\<Union>c \<in> set cs. subtrees c)"

text \<open>
  \<open>reply_tree rs t\<close>: the edges of \<open>t\<close> are the \<^verbatim>\<open>inReplyTo\<close> links, and the direct
  replies of each record stand in the order in which the list \<open>rs\<close> has them.
  \<open>thread_tree_of root_id rs t\<close>: moreover the root of \<open>t\<close> has the id \<open>root_id\<close> and the
  records of \<open>t\<close> are exactly those of \<open>rs\<close>, each once. \<open>ascending t\<close>: the direct replies
  of each record of \<open>t\<close> ascend by \<^verbatim>\<open>published\<close>.
\<close>

fun reply_tree :: "entry list \<Rightarrow> thread_tree \<Rightarrow> bool" where
  "reply_tree rs (Thread e cs) \<longleftrightarrow>
     subseq (map tree_entry cs) rs
     \<and> (\<forall>c \<in> set cs. entry_reply_to (tree_entry c) = Some (entry_id e) \<and> reply_tree rs c)"

definition thread_tree_of :: "string \<Rightarrow> entry list \<Rightarrow> thread_tree \<Rightarrow> bool" where
  "thread_tree_of root_id rs t \<longleftrightarrow>
     entry_id (tree_entry t) = root_id \<and> mset (members t) = mset rs \<and> reply_tree rs t"

fun ascending :: "thread_tree \<Rightarrow> bool" where
  "ascending (Thread e cs) \<longleftrightarrow>
     sorted (map (\<lambda>c. entry_published (tree_entry c)) cs) \<and> (\<forall>c \<in> set cs. ascending c)"

definition entry_A :: entry where
  "entry_A = (note_A, \<lparr> obj_id = ''A'', obj_type = ''Note'', in_reply_to = None,
                        published = ''2018-06-01T10:00:00Z'' \<rparr>)"

definition entry_B :: entry where
  "entry_B = (note_B, \<lparr> obj_id = ''B'', obj_type = ''Note'', in_reply_to = Some ''A'',
                        published = ''2018-06-01T11:00:00Z'' \<rparr>)"

definition entry_C :: entry where
  "entry_C = (note_C, \<lparr> obj_id = ''C'', obj_type = ''Note'', in_reply_to = Some ''B'',
                        published = ''2018-06-01T12:00:00Z'' \<rparr>)"

definition tree_ABC :: thread_tree where
  "tree_ABC = Thread entry_A [Thread entry_B [Thread entry_C []]]"

section \<open>Theorems\<close>

subsection \<open>The fixed bearer token\<close>

lemma str_remove_fixed_header:
  "str_remove ''Bearer '' ''Bearer xyugavnomuravej'' = ''xyugavnomuravej''"
  by simp

lemma bearer_token_req_fixed_token: "bearer_token req_fixed_token = fixed_token"
  by (simp add: bearer_token_def req_fixed_token_def req_anonymous_def fixed_token_def
      get_or_empty_def)

lemma bearer_token_req_fixed_token_session:
  "bearer_token req_fixed_token_session = fixed_token"
  by (simp add: bearer_token_def req_fixed_token_session_def req_fixed_token_def
      req_anonymous_def fixed_token_def get_or_empty_def)

text \<open>
  C1, as stated, fails: a request that carries the fixed token in its Authorization header
  but also belongs to a logged-in session is never asked for its token. The session branch
  runs first, and on a POST whose CSRF token is invalid \<^verbatim>\<open>csrf.protect()\<close> raises: the
  request is rejected although it carries the fixed token.
\<close>

theorem fixed_token_session_csrf_counterexample:
  "headers req_fixed_token_session ''Authorization'' = Some ''Bearer xyugavnomuravej''
   \<and> bearer_token req_fixed_token_session = fixed_token
   \<and> api_required_impl jwt_accept_all req_fixed_token_session = ([CsrfProtect], Raise CSRFError)
   \<and> api_required jwt_accept_all noop_handler req_fixed_token_session = Raise CSRFError"
  by (simp add: bearer_token_req_fixed_token_session api_required_def api_required_impl_def)
     (simp add: req_fixed_token_session_def req_fixed_token_def req_anonymous_def)

text \<open>
  C1, amended. The token of a request is its Authorization header with every
  \<^verbatim>\<open>"Bearer "\<close> removed or, when that is empty, its \<^verbatim>\<open>access_token\<close> form field. For
  every request whose token is the literal \<^verbatim>\<open>xyugavnomuravej\<close> and that is not a
  logged-in session's non-GET/HEAD request with an invalid CSRF token, whatever the JWT
  verifier accepts: \<^verbatim>\<open>_api_required\<close> returns without raising, \<^verbatim>\<open>JWT.loads\<close> is never
  called, without a logged-in session nothing at all is checked, and every function
  decorated with \<^verbatim>\<open>api_required\<close> runs on the request.
\<close>

theorem fixed_token_authorizes:
  assumes "bearer_token req = fixed_token"
    and "session_logged_in req \<Longrightarrow> http_method req \<in> {''GET'', ''HEAD''} \<or> csrf_valid req"
  shows "snd (api_required_impl jwt_ok req) = Return ()
       \<and> (\<forall>t. JwtLoads t \<notin> set (fst (api_required_impl jwt_ok req)))
       \<and> (\<not> session_logged_in req \<longrightarrow> fst (api_required_impl jwt_ok req) = [])
       \<and> api_required jwt_ok f req = Return (f req)"
  using assms by (auto simp: api_required_impl_def api_required_def Let_def)

theorem fixed_token_authorizes_witness:
  "bearer_token req_fixed_token = fixed_token
   \<and> session_logged_in req_fixed_token = False
   \<and> snd (api_required_impl jwt_reject_all req_fixed_token) = Return ()
   \<and> fst (api_required_impl jwt_reject_all req_fixed_token) = []
   \<and> api_required jwt_reject_all noop_handler req_fixed_token = Return ()"
proof -
  have nosession: "session_logged_in req_fixed_token = False"
    by (simp add: req_fixed_token_def req_anonymous_def)
  have "snd (api_required_impl jwt_reject_all req_fixed_token) = Return ()
       \<and> (\<forall>t. JwtLoads t \<notin> set (fst (api_required_impl jwt_reject_all req_fixed_token)))
       \<and> (\<not> session_logged_in req_fixed_token \<longrightarrow>
            fst (api_required_impl jwt_reject_all req_fixed_token) = [])
       \<and> api_required jwt_reject_all noop_handler req_fixed_token
            = Return (noop_handler req_fixed_token)"
    by (rule fixed_token_authorizes [OF bearer_token_req_fixed_token])
       (simp add: nosession)
  then show ?thesis
    by (simp add: nosession bearer_token_req_fixed_token)
qed

subsection \<open>Inbound delivery\<close>

text \<open>
  Where the handler does what is meant, for every POST to the inbox whose body is a JSON
  object \<open>data\<close> with an \<open>id\<close>: when the signature verification does not succeed (it
  returns false or raises), the handler fetches the \<open>id\<close> IRI; when the fetch succeeds,
  the handler goes on with the fetched document in place of the delivered one; when the
  fetch fails too, it answers 422 with a JSON error body and leaves the store alone; and
  whenever the processing of the document it settled on succeeds, the answer is 201 with an
  empty body.
\<close>

lemma inbox_verification_fallback:
  "(verify_request env \<noteq> SigValid \<and> data_id data = Inr iri \<and> fetch_iri env iri = Some fetched
      \<longrightarrow> inbox_POST env (Some data) st = inbox_process env fetched st)
   \<and> (verify_request env \<noteq> SigValid \<and> data_id data = Inr iri \<and> fetch_iri env iri = None
      \<longrightarrow> inbox_POST env (Some data) st = (Return response_422, st)
          \<and> status response_422 = 422
          \<and> resp_body response_422 = JsonBody
               [(''error'',
                 ''failed to verify request (using HTTP signatures or fetching the IRI)'')])
   \<and> ((verify_request env = SigValid \<and> trusted = data
        \<or> verify_request env \<noteq> SigValid \<and> data_id data = Inr iri
           \<and> fetch_iri env iri = Some trusted)
       \<and> parse_activity env trusted = Inr parsed
       \<and> inbox_post env parsed st = (None, st')
      \<longrightarrow> inbox_POST env (Some data) st = (Return response_201, st')
          \<and> status response_201 = 201 \<and> resp_body response_201 = EmptyBody)"
  by (auto simp: inbox_POST_def inbox_process_def response_422_def response_201_def)

lemma inbox_verification_fallback_example:
  "inbox_POST (env_unsigned fetch_known) (Some delivered_doc) []
     = inbox_process (env_unsigned fetch_known) fetched_doc []
   \<and> inbox_POST (env_unsigned fetch_known) (Some delivered_doc) []
     = (Return response_201, [''original''])
   \<and> inbox_POST (env_unsigned fetch_nothing) (Some delivered_doc) [] = (Return response_422, [])"
proof -
  have unsigned: "verify_request (env_unsigned f) \<noteq> SigValid" for f
    by (simp add: env_unsigned_def)
  have ident: "data_id delivered_doc = Inr ''https://remote.example/a/1''"
    by (simp add: delivered_doc_def)
  have found: "fetch_iri (env_unsigned fetch_known) ''https://remote.example/a/1'' = Some fetched_doc"
    by (simp add: env_unsigned_def fetch_known_def)
  have lost: "fetch_iri (env_unsigned fetch_nothing) ''https://remote.example/a/1'' = None"
    by (simp add: env_unsigned_def fetch_nothing_def)
  have parsed: "parse_activity (env_unsigned fetch_known) fetched_doc = Inr ''original''"
    by (simp add: env_unsigned_def parse_text_def fetched_doc_def)
  have stored: "inbox_post (env_unsigned fetch_known) ''original'' [] = (None, [''original''])"
    by (simp add: env_unsigned_def store_append_def)
  from inbox_verification_fallback
    [of "env_unsigned fetch_known" delivered_doc "''https://remote.example/a/1''"
        fetched_doc "[]" fetched_doc "''original''" "[''original'']"]
    inbox_verification_fallback
    [of "env_unsigned fetch_nothing" delivered_doc "''https://remote.example/a/1''"
        fetched_doc "[]" fetched_doc "''original''" "[''original'']"]
  show ?thesis
    using unsigned ident found lost parsed stored by auto
qed

text \<open>
  Whatever the collaborators do, a delivery whose verification does not succeed and on
  which \<^verbatim>\<open>data["id"]\<close> raises is answered with that exception and with no response.
\<close>

lemma inbox_POST_lookup_raises:
  "verify_request env \<noteq> SigValid \<Longrightarrow> data_id data = Inl e
   \<Longrightarrow> inbox_POST env (Some data) st = (Raise e, st)"
  by (simp add: inbox_POST_def)

text \<open>
  C2 (the code breaks it). A peer posts a JSON object with no \<^verbatim>\<open>id\<close> (or a JSON list)
  and no valid signature. The verification fails; in the \<^verbatim>\<open>try\<close> block
  \<^verbatim>\<open>data["id"]\<close> raises before anything is fetched; the \<^verbatim>\<open>except\<close> branch that is
  there to answer 422 evaluates \<^verbatim>\<open>data["id"]\<close> again for its log line and raises in
  turn. The handler answers neither 422 nor 201: it ends with an unhandled \<open>KeyError\<close>
  (\<open>TypeError\<close> for the list) and the store as it was.
\<close>

theorem inbox_delivery_without_id_raises:
  "verify_request (env_unsigned fetch_known) = SigInvalid
   \<and> data_id doc_without_id = Inl KeyError
   \<and> inbox_POST (env_unsigned fetch_known) (Some doc_without_id) [] = (Raise KeyError, [])
   \<and> inbox_POST (env_unsigned fetch_known) (Some doc_list) [] = (Raise TypeError, [])
   \<and> Raise KeyError \<noteq> Return response_422"
  by (simp add: inbox_POST_def env_unsigned_def doc_without_id_def doc_list_def)

subsection \<open>Pages of the outbox views\<close>

text \<open>
  What holds of every page: it has at most \<open>limit\<close> records, all of them match the query,
  their ordering keys descend, and for a positive \<open>limit\<close> the cursor is set exactly when
  the page is full.
\<close>

lemma page_of_shape:
  assumes "page_of limit query col = (items, c)"
  shows "length items \<le> limit"
    and "set items \<subseteq> {d \<in> set col. query d}"
    and "sorted (rev (map doc_id items))"
    and "0 < limit \<Longrightarrow> c \<noteq> None \<longleftrightarrow> length items = limit"
proof -
  let ?xs = "sort_key doc_id (filter query col)"
  have items: "items = take limit (rev ?xs)"
    using assms by (simp add: page_of_def find_sort_desc_def Let_def)
  show "length items \<le> limit"
    by (simp add: items)
  show "set items \<subseteq> {d \<in> set col. query d}"
    using set_take_subset [of limit "rev ?xs"] by (auto simp: items)
  have "rev items = drop (length ?xs - limit) ?xs"
    by (simp add: items rev_take)
  then have "rev (map doc_id items) = drop (length ?xs - limit) (map doc_id ?xs)"
    by (simp add: rev_map drop_map)
  then show "sorted (rev (map doc_id items))"
    by (simp add: sorted_wrt_drop)
  show "c \<noteq> None \<longleftrightarrow> length items = limit" if "0 < limit"
    using assms that by (auto simp: page_of_def Let_def split: if_splits)
qed

text \<open>
  C3 (the code breaks it, at \<^verbatim>\<open>index\<close>). The outbox holds one Announce record with
  ordering key 5 and \<^verbatim>\<open>meta.undo\<close> false; the page is requested with cursor 3. The
  cursor clause went into \<^verbatim>\<open>q\<close>, the first alternative of the \<^verbatim>\<open>$or\<close>, only: the
  Announce record is returned although its key is not below the cursor.
\<close>

theorem index_cursor_misses_announce:
  "index (Some 3) store_one_boost = ([mk_announce 5], None)
   \<and> doc_id (mk_announce 5) = 5
   \<and> \<not> doc_id (mk_announce 5) < 3"
  by (simp add: index_def page_of_def find_sort_desc_def store_one_boost_def store_of_outbox_def
      index_query_def index_q_def mk_announce_def)

text \<open>\<^verbatim>\<open>with_replies\<close> builds its query the same way and returns the same page.\<close>

lemma with_replies_cursor_misses_announce:
  "with_replies (Some 3) store_one_boost = ([mk_announce 5], None)"
  by (simp add: with_replies_def page_of_def find_sort_desc_def store_one_boost_def
      store_of_outbox_def with_replies_query_def with_replies_q_def mk_announce_def)

lemma map_insort_key: "map f (insort_key f x xs) = insort (f x) (map f xs)"
  by (induction xs) simp_all

lemma map_sort_key: "map f (sort_key f xs) = sort (map f xs)"
  by (induction xs) (simp_all add: map_insort_key)

lemma doc_id_mk_note: "doc_id (mk_note i) = i"
  by (simp add: mk_note_def)

lemma doc_id_mk_announce: "doc_id (mk_announce i) = i"
  by (simp add: mk_announce_def)

lemma index_query_mk_note:
  "index_query c (mk_note i) \<longleftrightarrow> (case c of None \<Rightarrow> True | Some k \<Rightarrow> i < k)"
  by (simp add: index_query_def index_q_def mk_note_def object_type_is_def in_reply_to_null_def
      split: option.splits)

lemma index_query_mk_announce: "index_query c (mk_announce i)"
  by (simp add: index_query_def mk_announce_def)

text \<open>
  The ordering keys of a page of \<^verbatim>\<open>index\<close> over notes with the keys \<open>ks\<close> and one
  Announce record with the key \<open>a\<close>: the cursor bounds the notes and not the Announce.
\<close>

lemma index_page_keys:
  "map doc_id (find_sort_desc (index_query c) n (map mk_note ks @ [mk_announce a]))
     = take n (rev (sort (filter (\<lambda>i. case c of None \<Rightarrow> True | Some k \<Rightarrow> i < k) ks @ [a])))"
proof -
  have keys: "map doc_id (filter (index_query c) (map mk_note ks @ [mk_announce a]))
          = filter (\<lambda>i. case c of None \<Rightarrow> True | Some k \<Rightarrow> i < k) ks @ [a]"
    by (simp add: filter_map comp_def index_query_mk_note index_query_mk_announce
        doc_id_mk_note doc_id_mk_announce)
  have sorted_keys: "map doc_id (take n (rev (sort_key doc_id ds)))
          = take n (rev (sort (map doc_id ds)))" for ds
    by (simp add: take_map rev_map map_sort_key [symmetric])
  show ?thesis
    by (simp only: find_sort_desc_def sorted_keys keys)
qed

lemma fifty_first_page_keys:
  "take 50 (rev (sort (filter (\<lambda>i. case None :: nat option of None \<Rightarrow> True | Some k \<Rightarrow> i < k)
      [1..<51] @ [51]))) = rev [2..<52]"
  by code_simp

lemma fifty_second_page_keys:
  "take 50 (rev (sort (filter (\<lambda>i. case Some 2 of None \<Rightarrow> True | Some k \<Rightarrow> i < k)
      [1..<51] @ [51 :: nat]))) = [51, 1]"
  by code_simp

lemma length_fifty_first_page: "length (rev [2..<52]) = 50"
  by simp

lemma last_fifty_first_page: "last (rev [2..<52]) = (2 :: nat)"
  by code_simp

lemma index_keys:
  assumes "map doc_id (find_sort_desc (index_query c) 50 (outbox store)) = keys"
  shows "map doc_id (fst (index c store)) = keys"
    and "snd (index c store) = (if length keys = 50 then Some (last keys) else None)"
proof -
  let ?items = "find_sort_desc (index_query c) 50 (outbox store)"
  show "map doc_id (fst (index c store)) = keys"
    using assms by (simp add: index_def page_of_def Let_def)
  have "length ?items = length keys"
    using assms by (metis length_map)
  moreover have "doc_id (last ?items) = last keys" if "?items \<noteq> []"
    using assms that by (metis last_map)
  ultimately show "snd (index c store) = (if length keys = 50 then Some (last keys) else None)"
    by (auto simp: index_def page_of_def Let_def)
qed

text \<open>
  C4 (the code breaks it, at \<^verbatim>\<open>index\<close>, by the same defect). The outbox holds fifty
  top-level notes with keys 1 to 50 and one Announce record with key 51. The first page
  lists the keys 51 down to 2 and returns the cursor 2; the second page, requested with that
  cursor, lists the Announce record 51 again before the note 1, and returns no cursor.
  The concatenation lists the record 51 twice.
\<close>

theorem index_pages_repeat_announce:
  "map_option (map doc_id) (follow_cursors index 3 None store_fifty_notes_one_boost)
     = Some (rev [2..<52] @ [51, 1])
   \<and> \<not> distinct (rev [2..<52] @ [51, 1 :: nat])"
proof -
  let ?store = store_fifty_notes_one_boost
  have outbox: "outbox ?store = map mk_note [1..<51] @ [mk_announce 51]"
    by (simp add: store_fifty_notes_one_boost_def store_of_outbox_def)
  have first: "map doc_id (find_sort_desc (index_query None) 50 (outbox ?store)) = rev [2..<52]"
    unfolding outbox index_page_keys by (rule fifty_first_page_keys)
  have second: "map doc_id (find_sort_desc (index_query (Some 2)) 50 (outbox ?store)) = [51, 1]"
    unfolding outbox index_page_keys by (rule fifty_second_page_keys)
  obtain items1 where page1: "index None ?store = (items1, Some 2)"
    and keys1: "map doc_id items1 = rev [2..<52]"
    using index_keys [OF first] length_fifty_first_page last_fifty_first_page
    by (cases "index None ?store") simp
  obtain items2 where page2: "index (Some 2) ?store = (items2, None)"
    and keys2: "map doc_id items2 = [51, 1]"
    using index_keys [OF second] by (cases "index (Some 2) ?store") simp
  have "follow_cursors index (Suc (Suc (Suc 0))) None ?store = Some (items1 @ items2)"
    by (simp add: page1 page2)
  then have "map_option (map doc_id) (follow_cursors index 3 None ?store)
      = Some (rev [2..<52] @ [51, 1])"
    by (simp add: numeral_3_eq_3 keys1 keys2)
  moreover have "\<not> distinct (rev [2..<52] @ [51, 1 :: nat])"
    by simp
  ultimately show ?thesis by simp
qed




subsection \<open>Undo, Follow and Block through the user API\<close>

text \<open>
  C8 (the code breaks it). The outbox holds a Follow activity that is already undone
  (\<^verbatim>\<open>meta.undo\<close> is true), and \<^verbatim>\<open>/api/undo\<close> is called for it once more. The handler
  never reads \<^verbatim>\<open>meta.undo\<close>: whatever \<^verbatim>\<open>OUTBOX.post\<close> is, it builds a second Undo of
  the activity and posts it, and its answer and the store are those of that post.
\<close>

theorem api_undo_posts_again:
  "meta_undo follow_undone = Some True
   \<and> api_undo env req_undo store_undone
       = api_posted req_undo (outbox_post env (Undo (activity follow_undone)) store_undone)"
  by (simp add: api_undo_def user_api_arg_def user_api_lookup_def truthy_def find_one_def
      req_undo_def req_fixed_token_def req_anonymous_def store_undone_def store_of_outbox_def
      follow_undone_def)

text \<open>
  C9 (the code breaks it, in \<^verbatim>\<open>api_follow\<close>). \<^verbatim>\<open>DB.following\<close> holds the record of
  the actor, keyed by the actor's IRI, and \<^verbatim>\<open>/api/follow\<close> is called for that actor once
  more. The handler finds the record and reads \<^verbatim>\<open>existing["activity"]["id"]\<close>, an entry
  the record does not have: whatever \<^verbatim>\<open>OUTBOX.post\<close> is, the request ends with an
  unhandled \<open>KeyError\<close> and not with the id of an existing activity.
\<close>

theorem api_follow_existing_raises:
  "find_one (\<lambda>f. remote_actor f = actor_x) (following store_following_bare) = Some following_bare
   \<and> user_api_arg req_actor_x ''actor'' = Return actor_x
   \<and> api_follow env req_actor_x store_following_bare = (Raise KeyError, store_following_bare)"
  by (simp add: api_follow_def user_api_arg_def user_api_lookup_def truthy_def find_one_def
      req_actor_x_def req_fixed_token_def req_anonymous_def store_following_bare_def
      following_bare_def actor_x_def)

text \<open>
  Where the two handlers do what is meant, for every request that names an actor:
  \<^verbatim>\<open>api_block\<close>, when the outbox holds a Block of the actor that is not undone, answers
  with the \<^verbatim>\<open>id\<close> of that Block, and \<^verbatim>\<open>api_follow\<close>, when the record of the actor in
  \<^verbatim>\<open>DB.following\<close> does have an activity, answers with the \<^verbatim>\<open>id\<close> of that activity;
  nothing is raised, \<^verbatim>\<open>OUTBOX.post\<close> plays no part (the result is the same for every
  \<open>outbox_post\<close>) and the store is returned unchanged. The answer is
  \<^verbatim>\<open>_user_api_response\<close> of the existing id: the JSON object \<^verbatim>\<open>{"activity": id}\<close> with
  status 201, unless the request asks for a redirect.
\<close>

lemma duplicate_follow_block_returns_existing:
  assumes "user_api_arg req ''actor'' = Return actor"
  shows "(find_one (\<lambda>f. remote_actor f = actor) (following store) = Some existing
            \<and> follow_activity existing = Some a
          \<longrightarrow> api_follow env req store = (Return (user_api_response req (act_id a)), store))
       \<and> (find_one (\<lambda>d. dtype d = ''Block'' \<and> act_object (activity d) = ObjIri actor
                          \<and> meta_undo d = Some False) (outbox store) = Some blocked
          \<longrightarrow> api_block env req store
                = (Return (user_api_response req (act_id (activity blocked))), store))
       \<and> (\<not> truthy (user_api_lookup req ''redirect'')
          \<longrightarrow> user_api_response req i
                = \<lparr> status = 201, resp_headers = [], resp_body = JsonBody [(''activity'', i)] \<rparr>)"
  using assms
  by (auto simp: api_follow_def api_block_def user_api_response_def user_api_arg_default_def
      Let_def)

lemma duplicate_follow_block_returns_existing_example:
  "api_follow env_post_refused req_actor_x store_following_x
     = (Return \<lparr> status = 201, resp_headers = [],
                resp_body = JsonBody [(''activity'', ''https://me.example/outbox/f1'')] \<rparr>,
        store_following_x)
   \<and> api_block env_post_refused req_actor_x store_following_x
     = (Return \<lparr> status = 201, resp_headers = [],
                resp_body = JsonBody [(''activity'', ''https://me.example/outbox/b1'')] \<rparr>,
        store_following_x)"
proof -
  have arg: "user_api_arg req_actor_x ''actor'' = Return actor_x"
    by (simp add: user_api_arg_def user_api_lookup_def truthy_def req_actor_x_def
        req_fixed_token_def req_anonymous_def actor_x_def)
  have followed: "find_one (\<lambda>f. remote_actor f = actor_x) (following store_following_x)
      = Some following_x"
    by (simp add: find_one_def store_following_x_def following_x_def)
  have recorded: "follow_activity following_x = Some follow_activity_x"
    by (simp add: following_x_def)
  have blocked: "find_one (\<lambda>d. dtype d = ''Block'' \<and> act_object (activity d) = ObjIri actor_x
      \<and> meta_undo d = Some False) (outbox store_following_x) = Some block_x"
    by (simp add: find_one_def store_following_x_def block_x_def)
  have plain: "\<not> truthy (user_api_lookup req_actor_x ''redirect'')"
    by (simp add: user_api_lookup_def truthy_def req_actor_x_def req_fixed_token_def
        req_anonymous_def)
  have ids: "act_id follow_activity_x = ''https://me.example/outbox/f1''"
    "act_id (activity block_x) = ''https://me.example/outbox/b1''"
    by (simp_all add: follow_activity_x_def block_x_def)
  from duplicate_follow_block_returns_existing [OF arg, of store_following_x following_x
      follow_activity_x env_post_refused block_x "''https://me.example/outbox/f1''"]
    duplicate_follow_block_returns_existing [OF arg, of store_following_x following_x
      follow_activity_x env_post_refused block_x "''https://me.example/outbox/b1''"]
  show ?thesis
    using followed recorded blocked plain ids by simp
qed

subsection \<open>Deleted records\<close>



subsection \<open>The loops of \<^verbatim>\<open>_build_thread\<close>\<close>

text \<open>The keys of the index are the ids of the records kept in \<^verbatim>\<open>replies2\<close>.\<close>

lemma index_replies_dom:
  assumes "index_replies xs idx acc = (idx', acc')"
    and "dom idx = entry_id ` set acc"
  shows "dom idx' = entry_id ` set acc'"
  using assms
proof (induction xs arbitrary: idx acc)
  case Nil
  then show ?case by simp
next
  case (Cons rep reps)
  show ?case
  proof (cases "idx (entry_id rep) = None")
    case True
    with Cons.prems(1)
    have "index_replies reps (idx(entry_id rep \<mapsto> (rep, []))) (acc @ [rep]) = (idx', acc')"
      by simp
    moreover have "dom (idx(entry_id rep \<mapsto> (rep, []))) = entry_id ` set (acc @ [rep])"
      using Cons.prems(2) by auto
    ultimately show ?thesis by (rule Cons.IH)
  next
    case False
    with Cons.prems(1) have "index_replies reps idx acc = (idx', acc')"
      by simp
    then show ?thesis using Cons.prems(2) by (rule Cons.IH)
  qed
qed

text \<open>
  The second loop never changes the keys of the index, raises nothing but \<open>KeyError\<close>,
  and raises it as soon as one record other than the root has no \<^verbatim>\<open>inReplyTo\<close> among
  the keys.
\<close>

lemma build_tree_dom: "build_tree root_id rs idx = Inr tree \<Longrightarrow> dom tree = dom idx"
proof (induction rs arbitrary: idx)
  case Nil
  then show ?case by simp
next
  case (Cons rep reps)
  show ?case
  proof (cases "entry_id rep = root_id")
    case True
    with Cons show ?thesis by simp
  next
    case False
    with Cons.prems obtain reply_of node nodes where
      reply: "entry_reply_to rep = Some reply_of" and
      parent: "idx reply_of = Some (node, nodes)" and
      rest: "build_tree root_id reps (idx(reply_of \<mapsto> (node, nodes @ [rep]))) = Inr tree"
      by (auto split: option.splits)
    from rest have "dom tree = dom (idx(reply_of \<mapsto> (node, nodes @ [rep])))"
      by (rule Cons.IH)
    also from parent have "\<dots> = dom idx"
      by (simp add: insert_absorb domI)
    finally show ?thesis .
  qed
qed

lemma build_tree_error: "build_tree root_id rs idx = Inl e \<Longrightarrow> e = KeyError"
proof (induction rs arbitrary: idx)
  case Nil
  then show ?case by simp
next
  case (Cons rep reps)
  then show ?case
    by (cases "entry_id rep = root_id") (auto split: option.splits)
qed

lemma build_tree_lost_parent:
  assumes "r \<in> set rs" and "entry_id r \<noteq> root_id"
    and "\<And>p. entry_reply_to r = Some p \<Longrightarrow> p \<notin> dom idx"
  shows "build_tree root_id rs idx = Inl KeyError"
  using assms
proof (induction rs arbitrary: idx)
  case Nil
  then show ?case by simp
next
  case (Cons rep reps)
  show ?case
  proof (cases "build_tree root_id (rep # reps) idx")
    case (Inl e)
    then show ?thesis using build_tree_error by blast
  next
    case (Inr tree)
    show ?thesis
    proof (cases "entry_id rep = root_id")
      case True
      with Cons.prems have "r \<in> set reps" by auto
      from Cons.IH [OF this Cons.prems(2,3)] True Inr show ?thesis by simp
    next
      case False
      with Inr obtain reply_of node nodes where
        reply: "entry_reply_to rep = Some reply_of" and
        parent: "idx reply_of = Some (node, nodes)" and
        rest: "build_tree root_id reps (idx(reply_of \<mapsto> (node, nodes @ [rep]))) = Inr tree"
        by (auto split: option.splits)
      from reply parent Cons.prems(2,3) have "r \<noteq> rep" by auto
      with Cons.prems(1) have "r \<in> set reps" by simp
      moreover have "p \<notin> dom (idx(reply_of \<mapsto> (node, nodes @ [rep])))"
        if "entry_reply_to r = Some p" for p
        using Cons.prems(3) [OF that] parent by auto
      ultimately have
        "build_tree root_id reps (idx(reply_of \<mapsto> (node, nodes @ [rep]))) = Inl KeyError"
        using Cons.prems(2) by (intro Cons.IH)
      with rest show ?thesis by simp
    qed
  qed
qed

lemma thread_records_index:
  assumes "thread_records store data = Inr (root_id, replies2)"
  obtains replies idx where "thread_replies store data = Inr (root_id, replies)"
    and "index_replies replies Map.empty [] = (idx, replies2)"
    and "dom idx = entry_id ` set replies2"
proof -
  from assms obtain replies where
    replies: "thread_replies store data = Inr (root_id, replies)" and
    kept: "replies2 = snd (index_replies replies Map.empty [])"
    by (auto simp: thread_records_def split: sum.splits)
  obtain idx where idx: "index_replies replies Map.empty [] = (idx, replies2)"
    using kept by (cases "index_replies replies Map.empty []") simp
  from index_replies_dom [OF idx] have "dom idx = entry_id ` set replies2"
    by simp
  with replies idx show thesis by (rule that)
qed

subsection \<open>When \<^verbatim>\<open>_build_thread\<close> raises\<close>

text \<open>
  C10, as stated, fails: a record that replies to itself has an \<^verbatim>\<open>inReplyTo\<close> that is
  the object id of no other collected record, and yet nothing is raised. The root R and
  the record X, whose \<^verbatim>\<open>inReplyTo\<close> is X itself, are collected; X is appended to its own
  children, and the thread of R is R alone.
\<close>

theorem build_thread_self_reply_counterexample:
  "thread_records store_self_reply note_R
     = Inr (''R'', [the (entry_of note_R), the (entry_of note_X)])
   \<and> entry_id (the (entry_of note_X)) = ''X''
   \<and> entry_reply_to (the (entry_of note_X)) = Some ''X''
   \<and> entry_id (the (entry_of note_R)) = ''R''
   \<and> build_thread 1 store_self_reply note_R = Some (Inr [(the (entry_of note_R), 0)])"
  by (simp add: thread_records_def build_thread_def thread_replies_def store_self_reply_def
      note_R_def note_X_def mk_reply_def entry_of_def entry_id_def entry_reply_to_def
      entry_published_def truthy_def thread_query_def Let_def)

text \<open>
  C10, amended. The collected records are those of \<^verbatim>\<open>replies2\<close>: the first record of
  each object id, in the order of \<^verbatim>\<open>published\<close>. Whenever one of them, other than the
  root, has no \<^verbatim>\<open>inReplyTo\<close> or one that is the object id of none of them (itself
  included), or the root id is the object id of none of them, \<^verbatim>\<open>_build_thread\<close> raises
  \<open>KeyError\<close>, whatever the fuel.
\<close>

theorem build_thread_key_error:
  assumes "thread_records store data = Inr (root_id, replies2)"
    and "(\<exists>r \<in> set replies2. entry_id r \<noteq> root_id
            \<and> (\<forall>p. entry_reply_to r = Some p \<longrightarrow> p \<notin> entry_id ` set replies2))
         \<or> root_id \<notin> entry_id ` set replies2"
  shows "build_thread fuel store data = Some (Inl KeyError)"
proof -
  from assms(1) obtain replies idx where
    replies: "thread_replies store data = Inr (root_id, replies)" and
    idx: "index_replies replies Map.empty [] = (idx, replies2)" and
    keys: "dom idx = entry_id ` set replies2"
    by (rule thread_records_index)
  show ?thesis
  proof (cases "build_tree root_id replies2 idx")
    case (Inl e)
    then have "e = KeyError" by (rule build_tree_error)
    with Inl replies idx show ?thesis by (simp add: build_thread_def)
  next
    case (Inr tree)
    have "\<not> (\<exists>r \<in> set replies2. entry_id r \<noteq> root_id
            \<and> (\<forall>p. entry_reply_to r = Some p \<longrightarrow> p \<notin> entry_id ` set replies2))"
    proof
      assume "\<exists>r \<in> set replies2. entry_id r \<noteq> root_id
            \<and> (\<forall>p. entry_reply_to r = Some p \<longrightarrow> p \<notin> entry_id ` set replies2)"
      then obtain r where "r \<in> set replies2" "entry_id r \<noteq> root_id"
        "\<And>p. entry_reply_to r = Some p \<Longrightarrow> p \<notin> dom idx"
        using keys by auto
      then have "build_tree root_id replies2 idx = Inl KeyError"
        by (rule build_tree_lost_parent)
      with Inr show False by simp
    qed
    with assms(2) have "root_id \<notin> entry_id ` set replies2" by blast
    with keys build_tree_dom [OF Inr] have "tree root_id = None" by auto
    with Inr replies idx show ?thesis by (simp add: build_thread_def)
  qed
qed

theorem build_thread_key_error_witness:
  "thread_records store_lost_parent note_R
     = Inr (''R'', [the (entry_of note_R), the (entry_of note_Y)])
   \<and> entry_id (the (entry_of note_Y)) = ''Y''
   \<and> entry_reply_to (the (entry_of note_Y)) = Some ''Z''
   \<and> build_thread 5 store_lost_parent note_R = Some (Inl KeyError)"
proof -
  have records: "thread_records store_lost_parent note_R
     = Inr (''R'', [the (entry_of note_R), the (entry_of note_Y)])"
    by (simp add: thread_records_def thread_replies_def store_lost_parent_def
      note_R_def note_Y_def mk_reply_def entry_of_def entry_id_def entry_reply_to_def
      entry_published_def truthy_def thread_query_def Let_def)
  have ids: "entry_id (the (entry_of note_Y)) = ''Y''" "entry_id (the (entry_of note_R)) = ''R''"
    and reply: "entry_reply_to (the (entry_of note_Y)) = Some ''Z''"
    by (simp_all add: note_R_def note_Y_def mk_reply_def entry_of_def entry_id_def
        entry_reply_to_def)
  have lost: "(\<exists>r \<in> set [the (entry_of note_R), the (entry_of note_Y)]. entry_id r \<noteq> ''R''
            \<and> (\<forall>p. entry_reply_to r = Some p
                  \<longrightarrow> p \<notin> entry_id ` set [the (entry_of note_R), the (entry_of note_Y)]))
         \<or> ''R'' \<notin> entry_id ` set [the (entry_of note_R), the (entry_of note_Y)]"
    using ids reply by simp
  from build_thread_key_error [OF records lost, of 5] records ids reply
  show ?thesis by simp
qed

subsection \<open>Lists: subsequences and first occurrences\<close>

lemma subseq_is_filter:
  assumes "subseq ys xs" and "distinct xs"
  shows "ys = filter (\<lambda>x. x \<in> set ys) xs"
  using assms
proof (induction rule: list_emb.induct)
  case (list_emb_Nil ys)
  then show ?case by simp
next
  case (list_emb_Cons xs ys y)
  then have "y \<notin> set xs"
    by (auto elim: list_emb_set)
  with list_emb_Cons show ?case by simp
next
  case (list_emb_Cons2 x y xs ys)
  then have "x \<notin> set ys" by simp
  then have "filter (\<lambda>z. z = x \<or> z \<in> set xs) ys = filter (\<lambda>z. z \<in> set xs) ys"
    by (intro filter_cong) auto
  with list_emb_Cons2 show ?case by simp
qed

lemma subseq_same_set:
  assumes "subseq ys xs" and "subseq zs xs" and "distinct xs" and "set ys = set zs"
  shows "ys = zs"
  using subseq_is_filter [OF assms(1,3)] subseq_is_filter [OF assms(2,3)] assms(4) by simp

lemma subseq_sorted:
  assumes "subseq xs ys" and "sorted ys"
  shows "sorted xs"
  using assms
proof (induction rule: list_emb.induct)
  case (list_emb_Cons2 x y xs ys)
  then have "set xs \<subseteq> set ys"
    by (auto elim: list_emb_set)
  with list_emb_Cons2 show ?case by auto
qed simp_all

lemma subseq_sorted_map:
  assumes "subseq xs ys" and "sorted (map f ys)"
  shows "sorted (map f xs)"
  using subseq_map [OF assms(1), of f] assms(2) by (rule subseq_sorted)

lemma set_keep_first: "set (keep_first xs) \<subseteq> set xs"
  by (induction xs rule: keep_first.induct) auto

lemma distinct_keep_first: "distinct (map entry_id (keep_first xs))"
proof (induction xs rule: keep_first.induct)
  case 1
  show ?case by simp
next
  case (2 e es)
  have "entry_id e \<notin> entry_id ` set (keep_first (filter (\<lambda>x. entry_id x \<noteq> entry_id e) es))"
    using set_keep_first [of "filter (\<lambda>x. entry_id x \<noteq> entry_id e) es"] by auto
  with 2 show ?case by simp
qed

lemma subseq_keep_first: "subseq (keep_first xs) xs"
proof (induction xs rule: keep_first.induct)
  case 1
  show ?case by simp
next
  case (2 e es)
  have "subseq (filter (\<lambda>x. entry_id x \<noteq> entry_id e) es) es"
    by simp
  with 2 have "subseq (keep_first (filter (\<lambda>x. entry_id x \<noteq> entry_id e) es)) es"
    by (rule subseq_order.trans)
  then show ?case by simp
qed

text \<open>The first loop of \<^verbatim>\<open>_build_thread\<close> keeps the first record of each id.\<close>

lemma index_replies_keep_first:
  assumes "index_replies xs idx acc = (idx', acc')"
  shows "acc' = acc @ keep_first (filter (\<lambda>x. idx (entry_id x) = None) xs)"
  using assms
proof (induction xs arbitrary: idx acc)
  case Nil
  then show ?case by simp
next
  case (Cons rep reps)
  show ?case
  proof (cases "idx (entry_id rep) = None")
    case True
    let ?idx = "idx(entry_id rep \<mapsto> (rep, []))"
    from True Cons.prems have "index_replies reps ?idx (acc @ [rep]) = (idx', acc')"
      by simp
    then have "acc' = (acc @ [rep]) @ keep_first (filter (\<lambda>x. ?idx (entry_id x) = None) reps)"
      by (rule Cons.IH)
    moreover have "filter (\<lambda>x. ?idx (entry_id x) = None) reps
        = filter (\<lambda>x. entry_id x \<noteq> entry_id rep) (filter (\<lambda>x. idx (entry_id x) = None) reps)"
      by (auto intro: filter_cong)
    ultimately show ?thesis using True by simp
  next
    case False
    then obtain v where known: "idx (entry_id rep) = Some v"
      by auto
    with Cons.prems have "index_replies reps idx acc = (idx', acc')"
      by simp
    then have "acc' = acc @ keep_first (filter (\<lambda>x. idx (entry_id x) = None) reps)"
      by (rule Cons.IH)
    with known show ?thesis by simp
  qed
qed

lemma index_replies_entries:
  assumes "index_replies xs idx acc = (idx', acc')"
    and "\<And>k e ns. idx k = Some (e, ns) \<Longrightarrow> ns = [] \<and> e \<in> set acc \<and> entry_id e = k"
    and "idx' k = Some (e, ns)"
  shows "ns = [] \<and> e \<in> set acc' \<and> entry_id e = k"
  using assms
proof (induction xs arbitrary: idx acc)
  case Nil
  then show ?case by simp
next
  case (Cons rep reps)
  show ?case
  proof (cases "idx (entry_id rep) = None")
    case True
    let ?idx = "idx(entry_id rep \<mapsto> (rep, []))"
    from True Cons.prems(1) have run: "index_replies reps ?idx (acc @ [rep]) = (idx', acc')"
      by simp
    have "ns' = [] \<and> e' \<in> set (acc @ [rep]) \<and> entry_id e' = k'"
      if "?idx k' = Some (e', ns')" for k' e' ns'
      using that Cons.prems(2) [of k' e' ns'] by (auto split: if_splits)
    from Cons.IH [OF run this Cons.prems(3)] show ?thesis .
  next
    case False
    with Cons.prems(1) have run: "index_replies reps idx acc = (idx', acc')"
      by simp
    from Cons.IH [OF run Cons.prems(2) Cons.prems(3)] show ?thesis .
  qed
qed

text \<open>
  The second loop, when every record other than the root replies to a key of the index:
  it raises nothing and appends to each key the records that reply to it, in their order.
\<close>

lemma build_tree_children:
  assumes "\<And>r. r \<in> set rs \<Longrightarrow> entry_id r \<noteq> root_id
             \<Longrightarrow> \<exists>p. entry_reply_to r = Some p \<and> p \<in> dom idx"
  shows "\<exists>tree. build_tree root_id rs idx = Inr tree
           \<and> (\<forall>k e ns. idx k = Some (e, ns) \<longrightarrow>
                tree k = Some (e, ns @ filter (\<lambda>r. entry_id r \<noteq> root_id
                                                   \<and> entry_reply_to r = Some k) rs))"
  using assms
proof (induction rs arbitrary: idx)
  case Nil
  then show ?case by simp
next
  case (Cons rep reps)
  show ?case
  proof (cases "entry_id rep = root_id")
    case True
    have "\<exists>p. entry_reply_to r = Some p \<and> p \<in> dom idx"
      if "r \<in> set reps" "entry_id r \<noteq> root_id" for r
      using that Cons.prems [of r] by simp
    from Cons.IH [OF this] True show ?thesis by simp
  next
    case False
    with Cons.prems [of rep] obtain p node nodes where
      reply: "entry_reply_to rep = Some p" and parent: "idx p = Some (node, nodes)"
      by auto
    let ?idx = "idx(p \<mapsto> (node, nodes @ [rep]))"
    have "\<exists>q. entry_reply_to r = Some q \<and> q \<in> dom ?idx"
      if "r \<in> set reps" "entry_id r \<noteq> root_id" for r
      using that Cons.prems [of r] by auto
    from Cons.IH [OF this] obtain tree where
      built: "build_tree root_id reps ?idx = Inr tree" and
      nodes: "\<And>k e ns. ?idx k = Some (e, ns) \<Longrightarrow>
                tree k = Some (e, ns @ filter (\<lambda>r. entry_id r \<noteq> root_id
                                                   \<and> entry_reply_to r = Some k) reps)"
      by blast
    have "build_tree root_id (rep # reps) idx = Inr tree"
      using False reply parent built by simp
    moreover have "tree k = Some (e, ns @ filter (\<lambda>r. entry_id r \<noteq> root_id
                                                   \<and> entry_reply_to r = Some k) (rep # reps))"
      if "idx k = Some (e, ns)" for k e ns
    proof (cases "k = p")
      case True
      with that parent have "?idx k = Some (e, ns @ [rep])" by simp
      from nodes [OF this] True False reply show ?thesis by simp
    next
      case False
      with that have "?idx k = Some (e, ns)" by simp
      from nodes [OF this] False reply show ?thesis by simp
    qed
    ultimately show ?thesis by blast
  qed
qed
subsection \<open>Thread trees\<close>

lemma subtrees_self: "t \<in> subtrees t"
  by (cases t) simp

lemma tree_entry_member: "tree_entry t \<in> set (members t)"
  by (cases t) simp

lemma subtrees_reply: "s \<in> subtrees t \<Longrightarrow> c \<in> set (tree_replies s) \<Longrightarrow> c \<in> subtrees t"
proof (induction t)
  case (Thread e cs)
  then show ?case
    by (cases "s = Thread e cs") (auto intro: subtrees_self)
qed

lemma subtrees_members: "s \<in> subtrees t \<Longrightarrow> set (members s) \<subseteq> set (members t)"
proof (induction t)
  case (Thread e cs)
  then show ?case
    by (cases "s = Thread e cs") auto
qed

lemma subtrees_reply_tree: "s \<in> subtrees t \<Longrightarrow> reply_tree rs t \<Longrightarrow> reply_tree rs s"
proof (induction t)
  case (Thread e cs)
  then show ?case
    by (cases "s = Thread e cs") auto
qed

text \<open>Every record of a tree but the root is a direct reply of some record of the tree.\<close>

lemma member_is_reply:
  assumes "r \<in> set (members t)" and "r \<noteq> tree_entry t"
  shows "\<exists>s \<in> subtrees t. \<exists>c \<in> set (tree_replies s). r = tree_entry c"
  using assms
proof (induction t)
  case (Thread e cs)
  then obtain c where c: "c \<in> set cs" and r: "r \<in> set (members c)"
    by auto
  show ?case
  proof (cases "r = tree_entry c")
    case True
    with c show ?thesis by (auto intro: bexI [of _ "Thread e cs"])
  next
    case False
    from Thread.IH [OF c r False] c show ?thesis by auto
  qed
qed

lemma distinct_concat_same:
  assumes "distinct (concat (map f cs))" and "c1 \<in> set cs" and "c2 \<in> set cs"
    and "x \<in> set (f c1)" and "x \<in> set (f c2)"
  shows "c1 = c2"
  using assms by (induction cs) auto

lemma distinct_concat_part:
  assumes "distinct (concat (map f cs))" and "c \<in> set cs"
  shows "distinct (f c)"
  using assms by (induction cs) auto

lemma member_ids: "map entry_id (members (Thread e cs))
    = entry_id e # concat (map (\<lambda>c. map entry_id (members c)) cs)"
  by (simp add: map_concat comp_def)

text \<open>In a tree whose records have distinct ids, the id of a record names its subtree.\<close>

lemma subtree_unique:
  assumes "distinct (map entry_id (members t))"
    and "s1 \<in> subtrees t" and "s2 \<in> subtrees t"
    and "entry_id (tree_entry s1) = entry_id (tree_entry s2)"
  shows "s1 = s2"
  using assms
proof (induction t arbitrary: s1 s2)
  case (Thread e cs)
  let ?ids = "\<lambda>c. map entry_id (members c)"
  from Thread.prems(1) [unfolded member_ids]
  have fresh: "entry_id e \<notin> set (concat (map ?ids cs))"
    and apart: "distinct (concat (map ?ids cs))"
    by simp_all
  have below: "entry_id (tree_entry s) \<in> set (?ids c)" if "s \<in> subtrees c" for s c
    using subtrees_members [OF that] tree_entry_member [of s] by auto
  have not_root: "entry_id (tree_entry s) \<noteq> entry_id e" if "c \<in> set cs" "s \<in> subtrees c" for s c
    using below [OF that(2)] that(1) fresh by auto
  show ?case
  proof (cases "s1 = Thread e cs")
    case True
    show ?thesis
    proof (cases "s2 = Thread e cs")
      case True
      with \<open>s1 = Thread e cs\<close> show ?thesis by simp
    next
      case False
      with Thread.prems(3) obtain c where "c \<in> set cs" "s2 \<in> subtrees c" by auto
      from not_root [OF this] True Thread.prems(4) show ?thesis by simp
    qed
  next
    case False
    with Thread.prems(2) obtain c1 where c1: "c1 \<in> set cs" "s1 \<in> subtrees c1" by auto
    show ?thesis
    proof (cases "s2 = Thread e cs")
      case True
      from not_root [OF c1] True Thread.prems(4) show ?thesis by simp
    next
      case False
      with Thread.prems(3) obtain c2 where c2: "c2 \<in> set cs" "s2 \<in> subtrees c2" by auto
      from below [OF c1(2)] below [OF c2(2)] Thread.prems(4)
      have "c1 = c2"
        using distinct_concat_same [OF apart c1(1) c2(1)] by simp
      moreover have "distinct (?ids c1)"
        using apart c1(1) by (rule distinct_concat_part)
      ultimately show ?thesis
        using Thread.IH [OF c1(1) _ c1(2)] c2(2) Thread.prems(4) by blast
    qed
  qed
qed

lemma reply_below_root:
  assumes "s \<in> subtrees (Thread e cs)" and "c \<in> set (tree_replies s)"
  shows "tree_entry c \<in> set (concat (map members cs))"
proof (cases "s = Thread e cs")
  case True
  with assms(2) tree_entry_member [of c] show ?thesis by auto
next
  case False
  with assms(1) obtain c' where c': "c' \<in> set cs" "s \<in> subtrees c'" by auto
  have "c \<in> subtrees s"
    using subtrees_self assms(2) by (rule subtrees_reply)
  then have "tree_entry c \<in> set (members s)"
    using subtrees_members tree_entry_member by blast
  with subtrees_members [OF c'(2)] c'(1) show ?thesis by auto
qed

lemma reply_not_root:
  assumes "distinct (map entry_id (members t))"
    and "s \<in> subtrees t" and "c \<in> set (tree_replies s)"
  shows "entry_id (tree_entry c) \<noteq> entry_id (tree_entry t)"
proof (cases t)
  case (Thread e cs)
  with assms(2,3) have "tree_entry c \<in> set (concat (map members cs))"
    by (simp only: reply_below_root)
  moreover from assms(1) Thread have "entry_id e \<notin> entry_id ` set (concat (map members cs))"
    by simp
  ultimately have "entry_id (tree_entry c) \<noteq> entry_id e"
    by (metis imageI)
  with Thread show ?thesis by simp
qed
text \<open>
  The records of a list that reply to a record of the tree spanning the list are the direct
  replies the tree gives that record, in the same order.
\<close>

lemma tree_children:
  assumes "distinct (map entry_id rs)" and "mset (members t) = mset rs"
    and "reply_tree rs t" and "s \<in> subtrees t"
  shows "filter (\<lambda>r. entry_id r \<noteq> entry_id (tree_entry t)
                     \<and> entry_reply_to r = Some (entry_id (tree_entry s))) rs
           = map tree_entry (tree_replies s)"
    (is "filter ?reply rs = ?children")
proof -
  have same: "set (members t) = set rs"
    using assms(2) by (rule mset_eq_setD)
  have "mset (map entry_id (members t)) = mset (map entry_id rs)"
    using assms(2) by simp
  with assms(1) have ids: "distinct (map entry_id (members t))"
    using mset_eq_imp_distinct_iff by blast
  have apart: "distinct rs"
    using assms(1) by (simp add: distinct_map)
  have linked: "reply_tree rs s'" if "s' \<in> subtrees t" for s'
    using that assms(3) by (rule subtrees_reply_tree)
  have replies: "subseq (map tree_entry (tree_replies s')) rs"
    and parent: "\<And>c. c \<in> set (tree_replies s')
                  \<Longrightarrow> entry_reply_to (tree_entry c) = Some (entry_id (tree_entry s'))"
    if "s' \<in> subtrees t" for s'
    using linked [OF that] by (cases s'; simp)+
  have "set (filter ?reply rs) = set ?children"
  proof (intro equalityI subsetI)
    fix r
    assume "r \<in> set (filter ?reply rs)"
    then have r: "r \<in> set (members t)" "entry_id r \<noteq> entry_id (tree_entry t)"
      "entry_reply_to r = Some (entry_id (tree_entry s))"
      using same by auto
    then have "r \<noteq> tree_entry t" by auto
    with r(1) obtain s' c where s': "s' \<in> subtrees t" and c: "c \<in> set (tree_replies s')"
      and rc: "r = tree_entry c"
      using member_is_reply by blast
    from parent [OF s' c] rc r(3) have "entry_id (tree_entry s') = entry_id (tree_entry s)"
      by simp
    with ids s' assms(4) have "s' = s"
      by (rule subtree_unique)
    with c rc show "r \<in> set ?children" by simp
  next
    fix r
    assume "r \<in> set ?children"
    then obtain c where c: "c \<in> set (tree_replies s)" and rc: "r = tree_entry c"
      by auto
    have "c \<in> subtrees t"
      using assms(4) c by (rule subtrees_reply)
    then have "r \<in> set rs"
      using rc same subtrees_members tree_entry_member by blast
    moreover have "entry_id r \<noteq> entry_id (tree_entry t)"
      using reply_not_root [OF ids assms(4) c] rc by simp
    moreover have "entry_reply_to r = Some (entry_id (tree_entry s))"
      using parent [OF assms(4) c] rc by simp
    ultimately show "r \<in> set (filter ?reply rs)" by simp
  qed
  moreover have "subseq (filter ?reply rs) rs" by simp
  moreover note replies [OF assms(4)] apart
  ultimately show ?thesis
    by (intro subseq_same_set [of _ rs])
qed

subsection \<open>Flattening a tree\<close>

lemma run_all_done: "run_all (map (\<lambda>c. Some (Inr (f c))) cs) = Some (Inr (concat (map f cs)))"
  by (induction cs) simp_all

lemma depth_reply: "c \<in> set cs \<Longrightarrow> depth c \<le> foldr max (map depth cs) 0"
  by (induction cs) auto

lemma flatten_preorder:
  assumes nodes: "\<And>s. s \<in> subtrees t
            \<Longrightarrow> \<exists>x. idx (entry_id (tree_entry s)) = Some (x, map tree_entry (tree_replies s))"
    and asc: "\<And>s. s \<in> subtrees t
            \<Longrightarrow> sorted (map entry_published (map tree_entry (tree_replies s)))"
    and "s \<in> subtrees t" and "depth s \<le> fuel"
  shows "flatten fuel idx (tree_entry s) level = Some (Inr (preorder level s))"
  using assms(3,4)
proof (induction s arbitrary: fuel level)
  case (Thread e cs)
  from Thread.prems(2) obtain f where fuel: "fuel = Suc f"
    and deep: "foldr max (map depth cs) 0 \<le> f"
    by (cases fuel) auto
  from nodes [OF Thread.prems(1)] obtain x where
    node: "idx (entry_id e) = Some (x, map tree_entry cs)"
    by auto
  from asc [OF Thread.prems(1)]
  have order: "sort_key entry_published (map tree_entry cs) = map tree_entry cs"
    by (simp add: sort_key_id_if_sorted)
  have "flatten f idx (tree_entry c) (Suc level) = Some (Inr (preorder (Suc level) c))"
    if "c \<in> set cs" for c
  proof (rule Thread.IH [OF that])
    show "c \<in> subtrees t"
      using Thread.prems(1) that by (auto intro: subtrees_reply)
    show "depth c \<le> f"
      using depth_reply [OF that] deep by simp
  qed
  then have below: "map ((\<lambda>snode. flatten f idx snode (Suc level)) \<circ> tree_entry) cs
      = map (\<lambda>c. Some (Inr (preorder (Suc level) c))) cs"
    by simp
  show ?case
    by (simp add: fuel node order below run_all_done)
qed

subsection \<open>The thread of a note\<close>

lemma thread_replies_sorted:
  "thread_replies store data = Inr (root_id, replies) \<Longrightarrow> sorted (map entry_published replies)"
  by (auto simp: thread_replies_def Let_def sorted_insort_key split: option.splits)

lemma thread_replies_root:
  "thread_replies store data = Inr (root_id, replies)
   \<Longrightarrow> \<exists>requested. entry_of data = Some requested
         \<and> root_id = (case meta_thread_root_parent data of
                         Some r \<Rightarrow> r | None \<Rightarrow> entry_id requested)"
  by (auto simp: thread_replies_def Let_def split: option.splits)

lemma reply_tree_ascending:
  "reply_tree rs t \<Longrightarrow> sorted (map entry_published rs) \<Longrightarrow> ascending t"
proof (induction t)
  case (Thread e cs)
  from Thread.prems(1) have "subseq (map tree_entry cs) rs"
    by simp
  then have "sorted (map entry_published (map tree_entry cs))"
    using Thread.prems(2) by (rule subseq_sorted_map)
  with Thread show ?case
    by (simp add: comp_def)
qed

text \<open>
  Where the thread is built. \<^verbatim>\<open>_build_thread\<close> starts from the root id
  (\<^verbatim>\<open>meta.thread_root_parent\<close> of the requested record when it is set, the id of its
  object otherwise) and from the records its query collected, sorted by \<^verbatim>\<open>published\<close>,
  of which the first of each object id is kept. For
  every tree \<open>t\<close> that the \<^verbatim>\<open>inReplyTo\<close> links form on the kept records (its root has the
  root id, its records are the kept records, each once, every edge is a reply link, and
  the replies to one record stand in the order of the sorted list), the function returns
  the records of \<open>t\<close> in pre-order, parent before replies, each with its nesting level,
  the root at level 0 and a reply one level below its parent; the replies to each record
  ascend by \<^verbatim>\<open>published\<close>. The recursion of \<^verbatim>\<open>_flatten\<close> descends as deep as the tree:
  fuel of at least the depth of \<open>t\<close> gives this result.
\<close>

lemma build_thread_preorder:
  assumes "thread_replies store data = Inr (root_id, replies)"
    and "thread_tree_of root_id (keep_first replies) t"
    and "depth t \<le> fuel"
  shows "build_thread fuel store data = Some (Inr (preorder 0 t))
       \<and> ascending t
       \<and> (\<exists>requested. entry_of data = Some requested
            \<and> root_id = (case meta_thread_root_parent data of
                            Some r \<Rightarrow> r | None \<Rightarrow> entry_id requested))"
proof -
  let ?rs = "keep_first replies"
  from assms(2) have root: "entry_id (tree_entry t) = root_id"
    and span: "mset (members t) = mset ?rs" and links: "reply_tree ?rs t"
    by (simp_all add: thread_tree_of_def)
  have same: "set (members t) = set ?rs"
    using span by (rule mset_eq_setD)
  have ids: "distinct (map entry_id ?rs)"
    by (rule distinct_keep_first)
  then have inj: "inj_on entry_id (set ?rs)"
    by (simp add: distinct_map)
  have order: "sorted (map entry_published ?rs)"
    using subseq_keep_first thread_replies_sorted [OF assms(1)] by (rule subseq_sorted_map)
  obtain idx rs2 where "index_replies replies Map.empty [] = (idx, rs2)"
    by (cases "index_replies replies Map.empty []")
  moreover from index_replies_keep_first [OF this] have "rs2 = ?rs"
    by simp
  ultimately have run: "index_replies replies Map.empty [] = (idx, ?rs)"
    by simp
  from index_replies_dom [OF run] have keys: "dom idx = entry_id ` set ?rs"
    by simp
  have fresh: "ns = [] \<and> e \<in> set ?rs \<and> entry_id e = k" if "idx k = Some (e, ns)" for k e ns
    using index_replies_entries [OF run _ that] by simp
  have inside: "tree_entry s \<in> set ?rs" if "s \<in> subtrees t" for s
    using subtrees_members [OF that] tree_entry_member [of s] same by auto
  have "\<exists>p. entry_reply_to r = Some p \<and> p \<in> dom idx"
    if "r \<in> set ?rs" "entry_id r \<noteq> root_id" for r
  proof -
    from that root same have "r \<in> set (members t)" "r \<noteq> tree_entry t"
      by auto
    then obtain s c where s: "s \<in> subtrees t" and c: "c \<in> set (tree_replies s)"
      and rc: "r = tree_entry c"
      using member_is_reply by blast
    from subtrees_reply_tree [OF s links] c rc
    have "entry_reply_to r = Some (entry_id (tree_entry s))"
      by (cases s) simp
    with inside [OF s] keys show ?thesis by simp
  qed
  from build_tree_children [OF this] obtain tree where
    built: "build_tree root_id ?rs idx = Inr tree" and
    grown: "\<And>k e ns. idx k = Some (e, ns) \<Longrightarrow>
              tree k = Some (e, ns @ filter (\<lambda>r. entry_id r \<noteq> root_id
                                                  \<and> entry_reply_to r = Some k) ?rs)"
    by blast
  have node: "\<exists>x. x \<in> set ?rs \<and> entry_id x = entry_id (tree_entry s)
               \<and> tree (entry_id (tree_entry s)) = Some (x, map tree_entry (tree_replies s))"
    if "s \<in> subtrees t" for s
  proof -
    from inside [OF that] keys have "entry_id (tree_entry s) \<in> dom idx"
      by simp
    then obtain v where "idx (entry_id (tree_entry s)) = Some v"
      by blast
    then obtain x ns where x: "idx (entry_id (tree_entry s)) = Some (x, ns)"
      by (cases v) simp
    from fresh [OF x] have "ns = []" "x \<in> set ?rs" "entry_id x = entry_id (tree_entry s)"
      by simp_all
    moreover from grown [OF x] tree_children [OF ids span links that] root \<open>ns = []\<close>
    have "tree (entry_id (tree_entry s)) = Some (x, map tree_entry (tree_replies s))"
      by simp
    ultimately show ?thesis by blast
  qed
  from node [OF subtrees_self] obtain x where "x \<in> set ?rs" "entry_id x = entry_id (tree_entry t)"
    and top: "tree root_id = Some (x, map tree_entry (tree_replies t))"
    using root by auto
  with inj inside [OF subtrees_self] have "x = tree_entry t"
    by (auto dest: inj_onD)
  have "flatten fuel tree (tree_entry t) 0 = Some (Inr (preorder 0 t))"
  proof (rule flatten_preorder [of t])
    show "\<exists>x. tree (entry_id (tree_entry s)) = Some (x, map tree_entry (tree_replies s))"
      if "s \<in> subtrees t" for s
      using node [OF that] by blast
    show "sorted (map entry_published (map tree_entry (tree_replies s)))"
      if "s \<in> subtrees t" for s
    proof -
      from subtrees_reply_tree [OF that links]
      have "subseq (map tree_entry (tree_replies s)) ?rs"
        by (cases s) simp
      then show ?thesis using order by (rule subseq_sorted_map)
    qed
    show "t \<in> subtrees t" by (rule subtrees_self)
    show "depth t \<le> fuel" by (rule assms(3))
  qed
  with assms(1) run built top \<open>x = tree_entry t\<close>
  have "build_thread fuel store data = Some (Inr (preorder 0 t))"
    by (simp add: build_thread_def)
  moreover have "ascending t"
    using links order by (rule reply_tree_ascending)
  ultimately show ?thesis
    using thread_replies_root [OF assms(1)] by simp
qed
text \<open>
  A conversation: A has no \<^verbatim>\<open>inReplyTo\<close>, B replies to A and C replies to B; B and C
  carry \<^verbatim>\<open>meta.thread_root_parent\<close> = A, and A, the root, carries none. The thread built
  from A is A at level 0, B at level 1, C at level 2.
\<close>

lemma thread_replies_ABC:
  "thread_replies store_ABC note_A = Inr (''A'', [entry_A, entry_B, entry_C])"
  by (simp add: thread_replies_def store_ABC_def store_of_outbox_def note_A_def note_B_def
      note_C_def entry_A_def entry_B_def entry_C_def mk_reply_def entry_of_def entry_id_def
      entry_reply_to_def entry_published_def truthy_def thread_query_def Let_def)

lemma entry_ids_ABC:
  "entry_id entry_A = ''A''" "entry_id entry_B = ''B''" "entry_id entry_C = ''C''"
  by (simp_all add: entry_id_def entry_A_def entry_B_def entry_C_def)

lemma entry_replies_ABC:
  "entry_reply_to entry_A = None" "entry_reply_to entry_B = Some ''A''"
  "entry_reply_to entry_C = Some ''B''"
  by (simp_all add: entry_reply_to_def entry_A_def entry_B_def entry_C_def)

lemma entries_differ_ABC:
  "entry_A \<noteq> entry_B" "entry_A \<noteq> entry_C" "entry_B \<noteq> entry_C"
  using entry_ids_ABC by auto

lemma keep_first_ABC: "keep_first [entry_A, entry_B, entry_C] = [entry_A, entry_B, entry_C]"
  by (simp add: entry_ids_ABC)

lemma thread_tree_ABC: "thread_tree_of ''A'' (keep_first [entry_A, entry_B, entry_C]) tree_ABC"
  using entries_differ_ABC
  by (simp add: keep_first_ABC thread_tree_of_def tree_ABC_def entry_ids_ABC entry_replies_ABC)

lemma build_thread_from_root:
  "thread_replies store_ABC note_A = Inr (''A'', [entry_A, entry_B, entry_C])
   \<and> thread_tree_of ''A'' (keep_first [entry_A, entry_B, entry_C]) tree_ABC
   \<and> build_thread 3 store_ABC note_A = Some (Inr [(entry_A, 0), (entry_B, 1), (entry_C, 2)])
   \<and> ascending tree_ABC"
proof -
  have deep: "depth tree_ABC \<le> 3"
    by (simp add: tree_ABC_def)
  have "preorder 0 tree_ABC = [(entry_A, 0), (entry_B, 1), (entry_C, 2)]"
    by (simp add: tree_ABC_def)
  with build_thread_preorder [OF thread_replies_ABC thread_tree_ABC deep]
  show ?thesis
    using thread_replies_ABC thread_tree_ABC by simp
qed

text \<open>
  Built from B, the thread is the same: the query collects A as the parent of the
  requested record.
\<close>

lemma build_thread_from_direct_reply:
  "build_thread 3 store_ABC note_B = Some (Inr [(entry_A, 0), (entry_B, 1), (entry_C, 2)])"
  by (simp add: build_thread_def thread_replies_def store_ABC_def store_of_outbox_def note_A_def
      note_B_def note_C_def entry_A_def entry_B_def entry_C_def mk_reply_def entry_of_def
      entry_id_def entry_reply_to_def entry_published_def truthy_def thread_query_def Let_def
      numeral_3_eq_3)

text \<open>
  C6 (the code breaks it). The same conversation, built from C: the root id is
  \<^verbatim>\<open>meta.thread_root_parent\<close> of C, that is A. The query collects the Create records
  whose \<^verbatim>\<open>meta.thread_root_parent\<close> is A (B and C) and the parent of C (B again); the
  root A itself carries no \<^verbatim>\<open>meta.thread_root_parent\<close> and is not the parent of C, so it
  is not collected. The second loop looks up the parent of B, \<^verbatim>\<open>idx["A"]\<close>, and raises
  \<open>KeyError\<close>, whatever the fuel: no thread is returned, although the \<^verbatim>\<open>inReplyTo\<close>
  links of the three notes form a tree under the root id.
\<close>

theorem build_thread_from_reply_raises:
  "meta_thread_root_parent note_C = Some ''A''
   \<and> thread_records store_ABC note_C = Inr (''A'', [entry_B, entry_C])
   \<and> entry_reply_to entry_B = Some ''A''
   \<and> build_thread fuel store_ABC note_C = Some (Inl KeyError)"
  by (simp add: build_thread_def thread_records_def thread_replies_def store_ABC_def
      store_of_outbox_def note_A_def note_B_def note_C_def entry_B_def entry_C_def mk_reply_def
      entry_of_def entry_id_def entry_reply_to_def entry_published_def truthy_def
      thread_query_def Let_def)

end
